theory Spec2Isabelle
  imports Main "HOL-Library.Sublist"
begin

section \<open>Python and numpy primitives used by the pipeline\<close>

text \<open>
  Exceptions are values. \<open>Queue_Full\<close> and \<open>Queue_Empty\<close> are \<open>queue.Full\<close> and
  \<open>queue.Empty\<close>; \<open>External\<close> is any \<open>Exception\<close> raised by a collaborator that is not
  part of the repository (capture device, file reader, feature extractor, interpreter,
  result sink).
\<close>

datatype py_error =
    ValueError
  | IndexError
  | AttributeError
  | Queue_Full
  | Queue_Empty
  | External string

text \<open>Python slices \<open>xs[i:]\<close>, \<open>xs[:j]\<close> and \<open>xs[i:j]\<close> with a possibly negative bound.\<close>

definition slice_index :: "'a list \<Rightarrow> int \<Rightarrow> nat" where
  "slice_index xs i =
     (let n = int (length xs) in nat (if i < 0 then max 0 (n + i) else min i n))"

definition slice_from :: "'a list \<Rightarrow> int \<Rightarrow> 'a list" where
  "slice_from xs i = drop (slice_index xs i) xs"

definition slice_to :: "'a list \<Rightarrow> int \<Rightarrow> 'a list" where
  "slice_to xs j = take (slice_index xs j) xs"

definition slice_range :: "'a list \<Rightarrow> int \<Rightarrow> int \<Rightarrow> 'a list" where
  "slice_range xs i j = drop (slice_index xs i) (take (slice_index xs j) xs)"

text \<open>
  \<open>np.roll(a, shift)\<close> on a one-dimensional array: element \<open>i\<close> moves to position
  \<open>(i + shift) mod n\<close>, so a negative shift rotates to the left.
\<close>

definition np_roll :: "'a list \<Rightarrow> int \<Rightarrow> 'a list" where
  "np_roll a shift =
     (if a = [] then [] else rotate (nat ((- shift) mod int (length a))) a)"

text \<open>
  \<open>a[i:] = src\<close> on one-dimensional arrays: the source must have the length of the target
  slice, or length one (it is then broadcast); anything else raises \<open>ValueError\<close>.
\<close>

definition np_assign_from :: "'a list \<Rightarrow> int \<Rightarrow> 'a list \<Rightarrow> py_error + 'a list" where
  "np_assign_from a i src =
     (let start = slice_index a i; m = length a - start in
      if length src = m then Inr (take start a @ src)
      else if length src = 1 then Inr (take start a @ replicate m (hd src))
      else Inl ValueError)"

text \<open>\<open>np.pad(chunk, (0, k))\<close>: \<open>k\<close> zeros on the right.\<close>

definition np_pad_right :: "'a::zero list \<Rightarrow> nat \<Rightarrow> 'a list" where
  "np_pad_right chunk k = chunk @ replicate k 0"

text \<open>
  A two-dimensional array with its shape: \<open>shape0\<close> rows of \<open>shape1\<close> entries each. The
  shape is kept beside the rows because an array may have no row and still have columns.
\<close>

record 'a matrix =
  shape0 :: nat
  shape1 :: nat
  rows :: "'a list list"

definition matrix_ok :: "'a matrix \<Rightarrow> bool" where
  "matrix_ok m = (length (rows m) = shape0 m \<and> list_all (\<lambda>r. length r = shape1 m) (rows m))"

text \<open>\<open>a[:, 0]\<close>: the first column; \<open>IndexError\<close> when the array has no column.\<close>

definition first_column :: "'a matrix \<Rightarrow> py_error + 'a list" where
  "first_column m = (if shape1 m = 0 then Inl IndexError else Inr (map hd (rows m)))"

section \<open>The frame queue: \<open>queue.Queue(maxsize=10)\<close>\<close>

definition maxsize :: nat where
  "maxsize = 10"

definition put_nowait :: "'f list \<Rightarrow> 'f \<Rightarrow> py_error + 'f list" where
  "put_nowait q x = (if maxsize \<le> length q then Inl Queue_Full else Inr (q @ [x]))"

text \<open>
  \<open>Queue.get(timeout=t)\<close>, seen at the moment it returns: the oldest frame if there is one,
  \<open>queue.Empty\<close> if the queue stayed empty for the whole timeout.
\<close>

definition queue_get :: "'f list \<Rightarrow> py_error + 'f \<times> 'f list" where
  "queue_get q = (case q of [] \<Rightarrow> Inl Queue_Empty | x # q' \<Rightarrow> Inr (x, q'))"

section \<open>\<open>AudioStream\<close> (stream.py)\<close>

datatype worker = Wav_worker | Mic_worker

datatype event =
    Log_info string
  | Log_warning string
  | Log_error string
  | Thread_start worker
  | Thread_join worker nat
  | Sleep_ms nat

text \<open>
  The fields \<open>__init__\<close> stores. \<open>window_size\<close> and \<open>hop_size\<close> are the integers
  \<open>int(window_duration * sample_rate)\<close> and \<open>int(hop_duration * sample_rate)\<close>; the durations
  themselves are not stored. \<open>thread\<close> is \<open>_thread\<close>, a thread being identified by its target.
\<close>

record 'a audio_stream =
  sample_rate :: int
  channels :: int
  window_size :: int
  hop_size :: int
  device :: "int option"
  wav_file :: "string option"
  buffer :: "'a list"
  frame_queue :: "'a list list"
  is_running :: bool
  thread :: "worker option"

text \<open>\<open>np.zeros\<close> raises \<open>ValueError\<close> on a negative length.\<close>

definition new_stream ::
  "int \<Rightarrow> int \<Rightarrow> int \<Rightarrow> int \<Rightarrow> int option \<Rightarrow> string option \<Rightarrow> py_error + ('a::zero) audio_stream" where
  "new_stream sr ch wsize hsize dev wav =
     (if wsize < 0 then Inl ValueError
      else Inr \<lparr>sample_rate = sr, channels = ch, window_size = wsize, hop_size = hsize,
                device = dev, wav_file = wav, buffer = replicate (nat wsize) 0,
                frame_queue = [], is_running = False, thread = None\<rparr>)"

text \<open>
  \<open>_update_buffer\<close>. The result carries the state also when the slice assignment raises:
  the rolled buffer has been stored by then.
\<close>

definition update_buffer ::
  "'a audio_stream \<Rightarrow> 'a list \<Rightarrow> event list \<times> (py_error \<times> 'a audio_stream + 'a audio_stream)" where
  "update_buffer s new_data =
     (let s1 = s\<lparr>buffer := np_roll (buffer s) (- hop_size s)\<rparr> in
      case np_assign_from (buffer s1) (- hop_size s1) (slice_to new_data (hop_size s1)) of
        Inl e \<Rightarrow> ([], Inl (e, s1))
      | Inr b \<Rightarrow>
          (let s2 = s1\<lparr>buffer := b\<rparr> in
           case put_nowait (frame_queue s2) (buffer s2) of
             Inl e \<Rightarrow>
               (if e = Queue_Full
                then ([Log_warning ''Frame queue full, dropping frame''], Inr s2)
                else ([], Inl (e, s2)))
           | Inr q \<Rightarrow> ([], Inr (s2\<lparr>frame_queue := q\<rparr>))))"

text \<open>
  A producer appending the chunks \<open>cs\<close> one after the other: the frames handed to
  \<open>put_nowait\<close> (one per chunk, whether queued or dropped), the events, and the final state;
  the first exception ends the run.
\<close>

fun produce ::
  "'a audio_stream \<Rightarrow> 'a list list \<Rightarrow> py_error + ('a list list \<times> event list \<times> 'a audio_stream)" where
  "produce s [] = Inr ([], [], s)"
| "produce s (c # cs) =
     (case update_buffer s c of
        (evs, Inl (e, s')) \<Rightarrow> Inl e
      | (evs, Inr s') \<Rightarrow>
          (case produce s' cs of
             Inl e \<Rightarrow> Inl e
           | Inr (fs, evs', s'') \<Rightarrow> Inr (buffer s' # fs, evs @ evs', s'')))"

text \<open>
  \<open>start\<close>. \<open>wav_file\<close> is an optional \<open>Path\<close>, and a \<open>Path\<close> is always truthy.
\<close>

definition start :: "'a audio_stream \<Rightarrow> event list \<times> 'a audio_stream" where
  "start s =
     (if is_running s then ([Log_warning ''Stream already running''], s)
      else
        (let s1 = s\<lparr>is_running := True\<rparr>;
             t = (if wav_file s1 \<noteq> None then Wav_worker else Mic_worker);
             s2 = s1\<lparr>thread := Some t\<rparr>
         in ([Thread_start t, Log_info ''Audio stream started''], s2)))"

text \<open>
  \<open>stop\<close>. \<open>joined\<close> tells whether the worker ended within the timeout of
  \<open>join(timeout=2.0)\<close> (2000 ms); \<open>join\<close> returns \<open>None\<close> either way and \<open>stop\<close> does not
  look at the thread afterwards.
\<close>

definition stop :: "bool \<Rightarrow> 'a audio_stream \<Rightarrow> event list \<times> 'a audio_stream" where
  "stop joined s =
     (let s1 = s\<lparr>is_running := False\<rparr> in
      ((case thread s1 of None \<Rightarrow> [] | Some t \<Rightarrow> [Thread_join t 2000])
         @ [Log_info ''Audio stream stopped''], s1))"

text \<open>\<open>get_frame\<close>: \<open>queue.Empty\<close> becomes \<open>None\<close>; nothing else is caught.\<close>

definition get_frame :: "'a audio_stream \<Rightarrow> (py_error + 'a list option) \<times> 'a audio_stream" where
  "get_frame s =
     (case queue_get (frame_queue s) of
        Inl e \<Rightarrow> (if e = Queue_Empty then (Inr None, s) else (Inl e, s))
      | Inr (x, q) \<Rightarrow> (Inr (Some x), s\<lparr>frame_queue := q\<rparr>))"

text \<open>
  How a run of a worker or of a loop is left: by an exception, by returning, or still
  inside its loop when the observed events end.
\<close>

datatype 's run = Raised py_error 's | Returned 's | Running 's

subsection \<open>The replay worker\<close>

text \<open>What \<open>sf.read\<close> returns: a one-dimensional array, or frames by channels.\<close>

datatype 'a wav_contents = Mono "'a list" | Multi "'a matrix"

text \<open>
  \<open>self.hop_duration\<close>. \<open>hop_duration\<close> is a parameter of \<open>__init__\<close>, used there for
  \<open>hop_size\<close> and for a log line; it is not stored on the object, and the class has no such
  attribute. Reading it raises \<open>AttributeError\<close>.
\<close>

definition hop_duration :: "'a audio_stream \<Rightarrow> py_error + nat" where
  "hop_duration s = Inl AttributeError"

text \<open>Lines 136 to 138: the chunk at \<open>idx\<close>, padded with zeros when it is short.\<close>

definition next_chunk :: "('a::zero) audio_stream \<Rightarrow> 'a list \<Rightarrow> int \<Rightarrow> 'a list" where
  "next_chunk s audio_data idx =
     (let chunk = slice_range audio_data idx (idx + hop_size s) in
      if int (length chunk) < hop_size s
      then np_pad_right chunk (nat (hop_size s - int (length chunk)))
      else chunk)"

text \<open>
  The loop of \<open>_wav_worker\<close>. An exception leaves it with the state at the raise. The wait
  \<open>threading.Event().wait(self.hop_duration)\<close> is a \<open>Sleep_ms\<close> event when its argument can
  be read.
\<close>

function wav_loop ::
  "('a::zero) audio_stream \<Rightarrow> 'a list \<Rightarrow> int \<Rightarrow> event list \<times> 'a audio_stream run" where
  "wav_loop s audio_data idx =
     (if is_running s \<and> idx < int (length audio_data) then
        (case update_buffer s (next_chunk s audio_data idx) of
           (evs, Inl (e, s')) \<Rightarrow> (evs, Raised e s')
         | (evs, Inr s') \<Rightarrow>
             (case hop_duration s' of
                Inl e \<Rightarrow> (evs, Raised e s')
              | Inr d \<Rightarrow>
                  (case wav_loop s' audio_data (idx + hop_size s') of
                     (evs', r) \<Rightarrow> (evs @ Sleep_ms d # evs', r))))
      else ([], Returned s))"
  by pat_completeness auto
termination
  by (relation "{}") (simp_all add: hop_duration_def)

definition wav_worker ::
  "(py_error + 'a wav_contents \<times> int) \<Rightarrow> ('a::zero) audio_stream \<Rightarrow> event list \<times> 'a audio_stream" where
  "wav_worker read_result s =
     (case
        (case read_result of
           Inl e \<Rightarrow> ([], Raised e s)
         | Inr (contents, sr) \<Rightarrow>
             (let w = (if sr \<noteq> sample_rate s then [Log_warning ''WAV sample rate mismatch'']
                       else [])
              in case (case contents of Mono xs \<Rightarrow> Inr xs | Multi m \<Rightarrow> first_column m) of
                   Inl e \<Rightarrow> (w, Raised e s)
                 | Inr audio_data \<Rightarrow>
                     (case wav_loop s audio_data 0 of
                        (evs, Returned s') \<Rightarrow>
                          (w @ Log_info ''WAV file loaded'' # evs
                             @ [Log_info ''WAV playback finished''], Returned s')
                      | (evs, r) \<Rightarrow> (w @ Log_info ''WAV file loaded'' # evs, r))))
      of
        (evs, Raised e s') \<Rightarrow>
          (evs @ [Log_error ''WAV playback error''], s'\<lparr>is_running := False\<rparr>)
      | (evs, Returned s') \<Rightarrow> (evs, s')
      | (evs, Running s') \<Rightarrow> (evs, s'))"

subsection \<open>The capture worker\<close>

text \<open>
  The callback of \<open>_mic_worker\<close>: \<open>status\<close> is the truth value of the flags the capture
  library passes, \<open>indata\<close> is frames by channels.
\<close>

definition callback ::
  "'a audio_stream \<Rightarrow> bool \<Rightarrow> 'a matrix \<Rightarrow> event list \<times> 'a audio_stream run" where
  "callback s status indata =
     (let w = (if status then [Log_warning ''Audio callback status''] else []) in
      case first_column indata of
        Inl e \<Rightarrow> (w, Raised e s)
      | Inr audio \<Rightarrow>
          (case update_buffer s audio of
             (evs, Inl (e, s')) \<Rightarrow> (w @ evs, Raised e s')
           | (evs, Inr s') \<Rightarrow> (w @ evs, Returned s')))"

text \<open>
  What happens while the worker is inside \<open>with sd.InputStream(...)\<close>: a \<open>sd.sleep(100)\<close>
  that passes, the capture library calling the callback on its own thread, or another
  thread calling \<open>stop\<close>.
\<close>

datatype 'a mic_event =
    Slept
  | Callback bool "'a matrix"
  | Stop_called bool

text \<open>
  The loop \<open>while self.is_running: sd.sleep(100)\<close> with the callbacks that run beside it.
  An exception escaping the callback is raised on the capture library's thread, not in
  the worker: the worker goes on with the state the callback left.
\<close>

fun mic_loop :: "'a audio_stream \<Rightarrow> 'a mic_event list \<Rightarrow> event list \<times> 'a audio_stream run" where
  "mic_loop s [] = ([], if is_running s then Running s else Returned s)"
| "mic_loop s (ev # evs) =
     (if \<not> is_running s then ([], Returned s)
      else
        (case ev of
           Slept \<Rightarrow> (case mic_loop s evs of (out, r) \<Rightarrow> (Sleep_ms 100 # out, r))
         | Callback status indata \<Rightarrow>
             (case callback s status indata of
                (o1, Raised e s') \<Rightarrow> (case mic_loop s' evs of (out, r) \<Rightarrow> (o1 @ out, r))
              | (o1, Returned s') \<Rightarrow> (case mic_loop s' evs of (out, r) \<Rightarrow> (o1 @ out, r))
              | (o1, Running s') \<Rightarrow> (case mic_loop s' evs of (out, r) \<Rightarrow> (o1 @ out, r)))
         | Stop_called joined \<Rightarrow> mic_loop (snd (stop joined s)) evs))"

text \<open>
  \<open>_mic_worker\<close>; \<open>open_error\<close> is the exception \<open>sd.InputStream(...)\<close> raises when the
  device cannot be opened, if any. The handler covers the whole \<open>with\<close> statement.
\<close>

definition mic_worker ::
  "py_error option \<Rightarrow> 'a audio_stream \<Rightarrow> 'a mic_event list \<Rightarrow> event list \<times> 'a audio_stream run" where
  "mic_worker open_error s evs =
     (case open_error of
        Some e \<Rightarrow> ([Log_error ''Microphone error''], Returned (s\<lparr>is_running := False\<rparr>))
      | None \<Rightarrow>
          (case mic_loop s evs of
             (out, Raised e s') \<Rightarrow>
               (Log_info ''Microphone opened'' # out @ [Log_error ''Microphone error''],
                Returned (s'\<lparr>is_running := False\<rparr>))
           | (out, r) \<Rightarrow> (Log_info ''Microphone opened'' # out, r)))"

subsection \<open>Producer and consumer on the frame queue\<close>

datatype 'a queue_op = Enqueue "'a list" | Dequeue

text \<open>
  Any interleaving of \<open>_update_buffer\<close> (with the chunk it is given) and \<open>get_frame\<close>: the
  frames handed to \<open>put_nowait\<close>, the frames \<open>get_frame\<close> returned, and the final state. An
  append that raises produces no frame.
\<close>

fun interleave ::
  "'a audio_stream \<Rightarrow> 'a queue_op list \<Rightarrow> 'a list list \<times> 'a list list \<times> 'a audio_stream" where
  "interleave s [] = ([], [], s)"
| "interleave s (Enqueue c # ops) =
     (case update_buffer s c of
        (evs, Inl (e, s')) \<Rightarrow> interleave s' ops
      | (evs, Inr s') \<Rightarrow>
          (case interleave s' ops of (enq, deq, s'') \<Rightarrow> (buffer s' # enq, deq, s'')))"
| "interleave s (Dequeue # ops) =
     (case get_frame s of
        (Inr (Some f), s') \<Rightarrow>
          (case interleave s' ops of (enq, deq, s'') \<Rightarrow> (enq, f # deq, s''))
      | (r, s') \<Rightarrow> interleave s' ops)"

section \<open>\<open>YAMNetInference\<close> (infer_tflite.py)\<close>

text \<open>\<open>xs[i]\<close> with an index that is not negative.\<close>

definition list_get :: "'x list \<Rightarrow> nat \<Rightarrow> py_error + 'x" where
  "list_get xs i = (if i < length xs then Inr (xs ! i) else Inl IndexError)"

text \<open>A list comprehension whose element expression may raise: the first exception ends it.\<close>

fun comprehension :: "('x \<Rightarrow> py_error + 'y) \<Rightarrow> 'x list \<Rightarrow> py_error + 'y list" where
  "comprehension f [] = Inr []"
| "comprehension f (x # xs) =
     (case f x of
        Inl e \<Rightarrow> Inl e
      | Inr y \<Rightarrow> (case comprehension f xs of Inl e \<Rightarrow> Inl e | Inr ys \<Rightarrow> Inr (y # ys)))"

text \<open>
  \<open>np.argsort\<close> is numpy's; \<open>get_top_k\<close> takes it as a parameter. What numpy promises of
  its result on \<open>xs\<close>: a permutation of the indices of \<open>xs\<close> that lists the values in
  ascending order. The default sort is not stable, so nothing is promised on the order of
  equal values.
\<close>

definition is_argsort :: "('r::linorder) list \<Rightarrow> nat list \<Rightarrow> bool" where
  "is_argsort xs idxs =
     (distinct idxs \<and> set idxs = {0..<length xs} \<and> sorted (map (\<lambda>i. xs ! i) idxs))"

text \<open>
  One function that meets this: the stable argsort, which keeps equal values in index
  order. It is not numpy's in general (numpy's order of equal values varies with the
  length of the array and the build); it returns what numpy returns on arrays of distinct
  values and on two equal values, and is used below only on such arrays.
\<close>

definition argsort_small :: "('r::linorder) list \<Rightarrow> nat list" where
  "argsort_small xs = sort_key (\<lambda>i. xs ! i) [0..<length xs]"

text \<open>\<open>get_top_k\<close>: \<open>np.argsort(predictions)[-k:][::-1]\<close>, then the list comprehension.\<close>

definition get_top_k ::
  "(('r::linorder) list \<Rightarrow> nat list) \<Rightarrow> string list \<Rightarrow> 'r list \<Rightarrow> int
     \<Rightarrow> py_error + (string \<times> 'r) list" where
  "get_top_k argsort names predictions k =
     (let top_indices = rev (slice_from (argsort predictions) (- k)) in
      comprehension
        (\<lambda>idx. case list_get names idx of
                  Inl e \<Rightarrow> Inl e
                | Inr name \<Rightarrow>
                    (case list_get predictions idx of
                       Inl e \<Rightarrow> Inl e
                     | Inr p \<Rightarrow> Inr (name, p)))
        top_indices)"

text \<open>\<open>np.pad(m, ((0, 0), (0, k)))\<close>, \<open>m[:, :n]\<close> and \<open>m.T\<close>.\<close>

definition pad_columns :: "('a::zero) matrix \<Rightarrow> nat \<Rightarrow> 'a matrix" where
  "pad_columns m k =
     \<lparr>shape0 = shape0 m, shape1 = shape1 m + k, rows = map (\<lambda>r. r @ replicate k 0) (rows m)\<rparr>"

definition take_columns :: "'a matrix \<Rightarrow> nat \<Rightarrow> 'a matrix" where
  "take_columns m n =
     \<lparr>shape0 = shape0 m, shape1 = min n (shape1 m), rows = map (take n) (rows m)\<rparr>"

definition transposed :: "'a matrix \<Rightarrow> 'a matrix" where
  "transposed m =
     \<lparr>shape0 = shape1 m, shape1 = shape0 m,
      rows = map (\<lambda>j. map (\<lambda>r. r ! j) (rows m)) [0..<shape1 m]\<rparr>"

text \<open>Lines 91 to 94 of \<open>predict\<close>: the time dimension padded or cropped to 96.\<close>

definition crop_or_pad :: "('a::zero) matrix \<Rightarrow> 'a matrix" where
  "crop_or_pad features =
     (if shape1 features < 96 then pad_columns features (96 - shape1 features)
      else if shape1 features > 96 then take_columns features 96
      else features)"

text \<open>Line 97: the transpose with a batch dimension of one in front.\<close>

definition input_data :: "('a::zero) matrix \<Rightarrow> 'a matrix list" where
  "input_data features = [transposed (crop_or_pad features)]"

text \<open>
  \<open>predict\<close>. The interpreter is TensorFlow Lite's: \<open>set_tensor\<close>, \<open>invoke\<close> and
  \<open>get_tensor\<close> together are a function from the input tensor to an exception or the
  output tensor, given with the latency measured around them.
\<close>

definition predict ::
  "('a matrix list \<Rightarrow> py_error + 'r list list \<times> 'r) \<Rightarrow> ('a::zero) matrix
     \<Rightarrow> event list \<times> (py_error + 'r list \<times> 'r)" where
  "predict interpreter features =
     (let w = (if shape0 features \<noteq> 64 then [Log_warning ''Expected 64 Mel bands''] else [])
      in (w,
          case interpreter (input_data features) of
            Inl e \<Rightarrow> Inl e
          | Inr (output, latency) \<Rightarrow>
              (case output of
                 [] \<Rightarrow> Inl IndexError
               | predictions # rest \<Rightarrow> Inr (predictions, latency))))"

section \<open>The processing loop (server.py)\<close>

text \<open>The result dictionary of one processed frame; all its numbers but \<open>frame_id\<close> are floats.\<close>

record 'r result =
  timestamp :: 'r
  frame_id :: nat
  top_class :: string
  confidence :: 'r
  top_k :: "(string \<times> 'r) list"
  latency_ms :: 'r
  cpu_percent :: 'r
  threads :: int

text \<open>What the loop reads of the inference engine besides its methods.\<close>

record engine =
  class_names :: "string list"
  num_threads :: int

text \<open>
  The module's globals \<open>audio_stream\<close> (\<open>None\<close> until \<open>init_system\<close> has run) and
  \<open>is_running\<close>, with the loop's local \<open>frame_count\<close>.
\<close>

record 'a server =
  audio_stream :: "'a audio_stream option"
  server_is_running :: bool
  frame_count :: nat

text \<open>What the loop does to the outside: it logs and sleeps, and it emits results.\<close>

datatype 'r loop_event = Ev event | Emit "'r result"

text \<open>How one iteration ends: by \<open>continue\<close>, at the end of the \<open>try\<close> body, or in the handler.\<close>

datatype 'r outcome = No_frame | Emitted "'r result" | Failed py_error

text \<open>
  What the rest of the system does during one iteration of the loop: the chunks the
  acquisition worker appends before \<open>get_frame\<close> returns, the feature extractor, the
  interpreter, the CPU sample and the sink at this call, each with the exception it raises
  if any, the clock, and whether another thread clears \<open>is_running\<close> before the loop tests
  it again.
\<close>

record ('a, 'r) tick =
  arrivals :: "'a list list"
  extract_result :: "'a list \<Rightarrow> py_error + 'a matrix"
  interpreter :: "'a matrix list \<Rightarrow> py_error + 'r list list \<times> 'r"
  cpu_result :: "py_error + 'r"
  emit_result :: "'r result \<Rightarrow> py_error option"
  now :: 'r
  stop_requested :: bool

text \<open>
  The producer's appends as the consumer sees them: an exception of \<open>_update_buffer\<close> is
  the producer's, the stream keeps the state it had at the raise.
\<close>

fun appended :: "'a audio_stream \<Rightarrow> 'a list list \<Rightarrow> 'a audio_stream" where
  "appended s [] = s"
| "appended s (c # cs) =
     appended (case snd (update_buffer s c) of Inl (e, s') \<Rightarrow> s' | Inr s' \<Rightarrow> s') cs"

text \<open>The handler \<open>except Exception\<close>: the error is logged, the loop sleeps 0.1 s.\<close>

definition handler ::
  "py_error \<Rightarrow> 'r loop_event list \<Rightarrow> 's \<Rightarrow> 'r outcome \<times> 'r loop_event list \<times> 's" where
  "handler e evs sv =
     (Failed e, evs @ [Ev (Log_error ''Processing error''), Ev (Sleep_ms 100)], sv)"

text \<open>
  Lines 95 to 129: what the \<open>try\<close> body does with a frame, every exception going to the
  handler.
\<close>

definition process_frame ::
  "(('r::linorder) list \<Rightarrow> nat list) \<Rightarrow> engine \<Rightarrow> ('a::zero, 'r) tick \<Rightarrow> 'a list \<Rightarrow> 'a server
     \<Rightarrow> 'r outcome \<times> 'r loop_event list \<times> 'a server" where
  "process_frame argsort eng t audio_frame sv =
     (case extract_result t audio_frame of
        Inl e \<Rightarrow> handler e [] sv
      | Inr features \<Rightarrow>
          (case predict (interpreter t) features of
             (w, Inl e) \<Rightarrow> handler e (map Ev w) sv
           | (w, Inr (predictions, latency)) \<Rightarrow>
               (case get_top_k argsort (class_names eng) predictions 5 of
                  Inl e \<Rightarrow> handler e (map Ev w) sv
                | Inr tk \<Rightarrow>
                    (case cpu_result t of
                       Inl e \<Rightarrow> handler e (map Ev w) sv
                     | Inr cpu \<Rightarrow>
                         (case tk of
                            [] \<Rightarrow> handler IndexError (map Ev w) sv
                          | (cls, prob) # rest \<Rightarrow>
                              (let res = \<lparr>timestamp = now t, frame_id = frame_count sv,
                                          top_class = cls, confidence = prob, top_k = tk,
                                          latency_ms = latency, cpu_percent = cpu,
                                          threads = num_threads eng\<rparr>
                               in case emit_result t res of
                                    Some e \<Rightarrow> handler e (map Ev w) sv
                                  | None \<Rightarrow>
                                      (let n = frame_count sv + 1 in
                                       (Emitted res,
                                        map Ev w @ [Emit res]
                                          @ (if n mod 50 = 0
                                             then [Ev (Log_info ''Processed frames'')]
                                             else []),
                                        sv\<lparr>frame_count := n\<rparr>))))))))"

text \<open>
  One iteration, the \<open>try\<close> statement inside \<open>while is_running\<close>: \<open>get_frame\<close> on the
  stream as the producer has left it, \<open>continue\<close> on \<open>None\<close>, the rest on a frame.
\<close>

definition iteration ::
  "(('r::linorder) list \<Rightarrow> nat list) \<Rightarrow> engine \<Rightarrow> ('a::zero, 'r) tick \<Rightarrow> 'a server
     \<Rightarrow> 'r outcome \<times> 'r loop_event list \<times> 'a server" where
  "iteration argsort eng t sv =
     (case audio_stream sv of
        None \<Rightarrow> handler AttributeError [] sv
      | Some st \<Rightarrow>
          (case get_frame (appended st (arrivals t)) of
             (Inl e, st') \<Rightarrow> handler e [] (sv\<lparr>audio_stream := Some st'\<rparr>)
           | (Inr None, st') \<Rightarrow> (No_frame, [], sv\<lparr>audio_stream := Some st'\<rparr>)
           | (Inr (Some audio_frame), st') \<Rightarrow>
               process_frame argsort eng t audio_frame (sv\<lparr>audio_stream := Some st'\<rparr>)))"

text \<open>
  The loop \<open>while is_running\<close> over the ticks observed: one entry per iteration, its outcome
  and its events. It is left as \<open>Running\<close> when the ticks end while the flag is still set.
\<close>

fun while_running ::
  "(('r::linorder) list \<Rightarrow> nat list) \<Rightarrow> engine \<Rightarrow> ('a::zero, 'r) tick list \<Rightarrow> 'a server
     \<Rightarrow> ('r outcome \<times> 'r loop_event list) list \<times> 'a server run" where
  "while_running argsort eng [] sv = ([], if server_is_running sv then Running sv else Returned sv)"
| "while_running argsort eng (t # ts) sv =
     (if \<not> server_is_running sv then ([], Returned sv)
      else
        (case iteration argsort eng t sv of
           (oc, evs, sv1) \<Rightarrow>
             (let sv2 = (if stop_requested t then sv1\<lparr>server_is_running := False\<rparr> else sv1)
              in case while_running argsort eng ts sv2 of
                   (its, r) \<Rightarrow> ((oc, evs) # its, r))))"

text \<open>\<open>processing_loop\<close>: the log lines around the loop, and the events in order.\<close>

definition processing_loop ::
  "(('r::linorder) list \<Rightarrow> nat list) \<Rightarrow> engine \<Rightarrow> ('a::zero, 'r) tick list \<Rightarrow> 'a server
     \<Rightarrow> ('r outcome \<times> 'r loop_event list) list \<times> 'r loop_event list \<times> 'a server run" where
  "processing_loop argsort eng ts sv =
     (case while_running argsort eng ts sv of
        (its, r) \<Rightarrow>
          (its,
           Ev (Log_info ''Processing loop started'') # concat (map snd its)
             @ (case r of Returned sv' \<Rightarrow> [Ev (Log_info ''Processing loop stopped'')]
                | Raised e sv' \<Rightarrow> [] | Running sv' \<Rightarrow> []),
           r))"

text \<open>The results among events and among outcomes.\<close>

fun emits :: "'r loop_event list \<Rightarrow> 'r result list" where
  "emits [] = []"
| "emits (Emit r # evs) = r # emits evs"
| "emits (Ev e # evs) = emits evs"

fun results :: "'r outcome list \<Rightarrow> 'r result list" where
  "results [] = []"
| "results (Emitted r # ocs) = r # results ocs"
| "results (oc # ocs) = results ocs"

text \<open>What one iteration's events must be, given its outcome.\<close>

fun events_fit :: "'r outcome \<times> 'r loop_event list \<Rightarrow> bool" where
  "events_fit (No_frame, evs) = (evs = [])"
| "events_fit (Emitted r, evs) =
     (emits evs = [r] \<and> Ev (Log_error ''Processing error'') \<notin> set evs)"
| "events_fit (Failed e, evs) =
     (emits evs = [] \<and> length evs \<ge> 2
      \<and> drop (length evs - 2) evs = [Ev (Log_error ''Processing error''), Ev (Sleep_ms 100)])"

text \<open>
  \<open>_update_buffer\<close> is called by the worker only (from its callback or from its loop), and
  the capture library calls the callback only while the worker is inside its \<open>with\<close>
  block. So the chunks of a tick reach the stream only while the worker's run is
  \<open>Running\<close>; once the worker has returned or raised, nothing is appended.
\<close>

definition delivered :: "'s run \<Rightarrow> ('a, 'r) tick \<Rightarrow> ('a, 'r) tick" where
  "delivered r t =
     (case r of
        Running s \<Rightarrow> t
      | Returned s \<Rightarrow> t\<lparr>arrivals := []\<rparr>
      | Raised e s \<Rightarrow> t\<lparr>arrivals := []\<rparr>)"

subsection \<open>The iteration as the spec words it\<close>

text \<open>One step after another: the first exception ends the steps.\<close>

definition then_step :: "py_error + 'x \<Rightarrow> ('x \<Rightarrow> py_error + 'y) \<Rightarrow> py_error + 'y" where
  "then_step r f = (case r of Inl e \<Rightarrow> Inl e | Inr x \<Rightarrow> f x)"

text \<open>
  Steps 2 to 7 of the spec's loop on a frame, \<open>n\<close> being the sequence number: extract the
  features, predict, take the top 5, sample the CPU, build the record, hand it to the
  sink. The value is the first exception raised, or the record handed over.
\<close>

definition spec_steps ::
  "(('r::linorder) list \<Rightarrow> nat list) \<Rightarrow> engine \<Rightarrow> ('a::zero, 'r) tick \<Rightarrow> 'a list \<Rightarrow> nat
     \<Rightarrow> py_error + 'r result" where
  "spec_steps argsort eng t frame n =
     then_step (extract_result t frame) (\<lambda>features.
     then_step (snd (predict (interpreter t) features)) (\<lambda>(scores, latency).
     then_step (get_top_k argsort (class_names eng) scores 5) (\<lambda>topk.
     then_step (cpu_result t) (\<lambda>cpu.
     then_step
       (case topk of
          [] \<Rightarrow> Inl IndexError
        | (cls, prob) # rest \<Rightarrow>
            Inr \<lparr>timestamp = now t, frame_id = n, top_class = cls, confidence = prob,
                 top_k = topk, latency_ms = latency, cpu_percent = cpu,
                 threads = num_threads eng\<rparr>) (\<lambda>res.
     (case emit_result t res of Some e \<Rightarrow> Inl e | None \<Rightarrow> Inr res))))))"

text \<open>
  What the spec has an iteration do, from the state before it and its tick: with no frame
  within the timeout the loop goes round again; with a frame, an exception in a step is a
  failure (caught, the loop continues), and with none the record is emitted. Without a
  stream the frame cannot be asked for, which is an exception too.
\<close>

definition spec_outcome ::
  "(('r::linorder) list \<Rightarrow> nat list) \<Rightarrow> engine \<Rightarrow> ('a::zero, 'r) tick \<Rightarrow> 'a server
     \<Rightarrow> 'r outcome" where
  "spec_outcome argsort eng t sv =
     (case audio_stream sv of
        None \<Rightarrow> Failed AttributeError
      | Some st \<Rightarrow>
          (case frame_queue (appended st (arrivals t)) of
             [] \<Rightarrow> No_frame
           | frame # q \<Rightarrow>
               (case spec_steps argsort eng t frame (frame_count sv) of
                  Inl e \<Rightarrow> Failed e
                | Inr res \<Rightarrow> Emitted res)))"

text \<open>
  A small pipeline for running the loop: four one-sample frames queued, a feature
  extractor that either returns a one-by-one matrix or raises, an interpreter that
  returns two scores.
\<close>

definition mock_tick :: "bool \<Rightarrow> (int, int) tick" where
  "mock_tick fails =
     \<lparr>arrivals = [],
      extract_result = (\<lambda>f. if fails then Inl (External ''mock'')
                            else Inr \<lparr>shape0 = 1, shape1 = 1, rows = [[0]]\<rparr>),
      interpreter = (\<lambda>x. Inr ([[1, 2]], 7)),
      cpu_result = Inr 3,
      emit_result = (\<lambda>r. None),
      now = 0,
      stop_requested = False\<rparr>"

definition mock_server :: "int server" where
  "mock_server =
     \<lparr>audio_stream = Some \<lparr>sample_rate = 16000, channels = 1, window_size = 1, hop_size = 1,
          device = None, wav_file = None, buffer = [4], frame_queue = [[1], [2], [3], [4]],
          is_running = True, thread = Some Mic_worker\<rparr>,
      server_is_running = True, frame_count = 0\<rparr>"

definition mock_engine :: engine where
  "mock_engine = \<lparr>class_names = [''a'', ''b''], num_threads = 4\<rparr>"

section \<open>Facts about slices and the roll\<close>

lemma slice_index_neg:
  "0 < h \<Longrightarrow> h \<le> int (length a) \<Longrightarrow> slice_index a (- h) = length a - nat h"
  by (simp add: slice_index_def Let_def nat_diff_distrib')

lemma slice_index_nonneg:
  "0 \<le> j \<Longrightarrow> slice_index a j = min (nat j) (length a)"
  by (auto simp: slice_index_def Let_def min_def)

lemma np_roll_left:
  "0 \<le> h \<Longrightarrow> h \<le> int (length a) \<Longrightarrow> np_roll a (- h) = drop (nat h) a @ take (nat h) a"
  by (cases "h = int (length a)") (auto simp: np_roll_def rotate_drop_take nat_mod_distrib)

text \<open>
  One append with a positive hop no longer than the buffer and a chunk of exactly one hop:
  the buffer loses its oldest hop, gains the chunk, and the copy is queued unless the queue
  is full.
\<close>

lemma update_buffer_ok:
  assumes "0 < hop_size s" "hop_size s \<le> int (length (buffer s))"
    and "int (length c) = hop_size s"
  shows "update_buffer s c =
     (if maxsize \<le> length (frame_queue s)
      then [Log_warning ''Frame queue full, dropping frame''] else [],
      Inr (s\<lparr>buffer := drop (nat (hop_size s)) (buffer s) @ c,
              frame_queue := (if maxsize \<le> length (frame_queue s) then frame_queue s
                              else frame_queue s @ [drop (nat (hop_size s)) (buffer s) @ c])\<rparr>))"
proof -
  let ?h = "hop_size s"
  let ?r = "drop (nat ?h) (buffer s) @ take (nat ?h) (buffer s)"
  have lc: "length c = nat ?h" using assms(3) by simp
  have r: "np_roll (buffer s) (- ?h) = ?r"
    using assms by (simp add: np_roll_left)
  have st: "slice_to c ?h = c"
    using assms by (simp add: slice_to_def slice_index_nonneg lc)
  have si: "slice_index ?r (- ?h) = length (buffer s) - nat ?h"
    using assms(1,2) slice_index_neg[of ?h ?r] by simp
  have as: "np_assign_from ?r (- ?h) c = Inr (drop (nat ?h) (buffer s) @ c)"
    using assms(1,2) by (simp add: np_assign_from_def Let_def si lc)
  show ?thesis
    by (simp add: update_buffer_def Let_def r st as put_nowait_def)
qed

lemma produce_frames:
  assumes "0 < h" "h \<le> w" "hop_size s = h" "length (buffer s) = nat w"
    and "\<forall>c\<in>set cs. int (length c) = h"
  shows "\<exists>fs evs s'. produce s cs = Inr (fs, evs, s') \<and> length fs = length cs \<and>
     hop_size s' = h \<and> length (buffer s') = nat w \<and>
     (\<forall>i<length cs. length (fs ! i) = nat w \<and> slice_from (fs ! i) (- h) = cs ! i \<and>
         take (nat (w - h)) (fs ! i) = drop (nat h) ((buffer s # fs) ! i))"
  using assms
proof (induction cs arbitrary: s)
  case Nil
  then show ?case by simp
next
  case (Cons c cs)
  let ?b = "drop (nat h) (buffer s) @ c"
  let ?s1 = "s\<lparr>buffer := ?b,
              frame_queue := (if maxsize \<le> length (frame_queue s) then frame_queue s
                              else frame_queue s @ [?b])\<rparr>"
  have "int (length c) = h" using Cons.prems by simp
  then have lc: "length c = nat h" by linarith
  have ub: "snd (update_buffer s c) = Inr ?s1"
    using Cons.prems by (simp add: update_buffer_ok)
  have lb: "length ?b = nat w" using Cons.prems lc by simp
  have sf: "slice_from ?b (- h) = c"
    using Cons.prems lc lb slice_index_neg[of h ?b] by (simp add: slice_from_def)
  have tk: "take (nat (w - h)) ?b = drop (nat h) (buffer s)"
    using Cons.prems by (simp add: nat_diff_distrib')
  obtain fs evs s' where ih: "produce ?s1 cs = Inr (fs, evs, s')" "length fs = length cs"
     "hop_size s' = h" "length (buffer s') = nat w"
     "\<forall>i<length cs. length (fs ! i) = nat w \<and> slice_from (fs ! i) (- h) = cs ! i \<and>
         take (nat (w - h)) (fs ! i) = drop (nat h) ((?b # fs) ! i)"
    using Cons.IH[of ?s1] Cons.prems lb by auto
  obtain ev0 where ub2: "update_buffer s c = (ev0, Inr ?s1)"
    using ub by (cases "update_buffer s c") auto
  have p: "produce s (c # cs) = Inr (?b # fs, ev0 @ evs, s')"
    using ub2 ih(1) by simp
  have "\<forall>i<length (c # cs). length ((?b # fs) ! i) = nat w \<and>
         slice_from ((?b # fs) ! i) (- h) = (c # cs) ! i \<and>
         take (nat (w - h)) ((?b # fs) ! i) = drop (nat h) ((buffer s # ?b # fs) ! i)"
  proof (intro allI impI)
    fix i assume i: "i < length (c # cs)"
    show "length ((?b # fs) ! i) = nat w \<and> slice_from ((?b # fs) ! i) (- h) = (c # cs) ! i \<and>
         take (nat (w - h)) ((?b # fs) ! i) = drop (nat h) ((buffer s # ?b # fs) ! i)"
    proof (cases i)
      case 0
      then show ?thesis using lb sf tk by simp
    next
      case (Suc j)
      then have "j < length cs" using i by simp
      then show ?thesis using ih(5) Suc by simp
    qed
  qed
  then show ?case using p ih(2,3,4) by simp
qed

text \<open>A hop of zero on an empty buffer: every frame is empty.\<close>

lemma update_buffer_empty:
  assumes "hop_size s = 0" "buffer s = []"
  shows "snd (update_buffer s []) = Inr (s\<lparr>frame_queue :=
            (if maxsize \<le> length (frame_queue s) then frame_queue s else frame_queue s @ [[]])\<rparr>)"
  using assms
  by (simp add: update_buffer_def np_roll_def np_assign_from_def slice_index_def slice_to_def
      put_nowait_def Let_def)

lemma produce_frames_empty:
  assumes "hop_size s = 0" "buffer s = []" "\<forall>c\<in>set cs. c = []"
  shows "\<exists>fs evs s'. produce s cs = Inr (fs, evs, s') \<and> length fs = length cs
     \<and> (\<forall>i<length cs. fs ! i = [])"
  using assms
proof (induction cs arbitrary: s)
  case Nil
  then show ?case by simp
next
  case (Cons c cs)
  let ?s1 = "s\<lparr>frame_queue :=
            (if maxsize \<le> length (frame_queue s) then frame_queue s else frame_queue s @ [[]])\<rparr>"
  have c: "c = []" using Cons.prems by simp
  obtain ev0 where ub: "update_buffer s c = (ev0, Inr ?s1)"
    using update_buffer_empty[OF Cons.prems(1,2)] c by (cases "update_buffer s []") auto
  obtain fs evs s' where ih: "produce ?s1 cs = Inr (fs, evs, s')" "length fs = length cs"
     "\<forall>i<length cs. fs ! i = []"
    using Cons.IH[of ?s1] Cons.prems by auto
  have p: "produce s (c # cs) = Inr ([] # fs, ev0 @ evs, s')"
    using ub ih(1) Cons.prems(2) by simp
  have "\<forall>i<length (c # cs). ([] # fs) ! i = []"
    using ih(3) by (auto simp: nth_Cons split: nat.splits)
  then show ?case using p ih(2) by simp
qed

section \<open>The windower\<close>

text \<open>
  C1 (as amended). For a stream constructed with \<open>0 < hop_size \<le> window_size\<close> (or with an
  empty window and a hop of zero), whose buffer is \<open>window_size\<close> zeros, and any sequence of
  chunks of length \<open>hop_size\<close> appended through \<open>_update_buffer\<close>, no append raises and one
  frame is produced per chunk; every frame has length \<open>window_size\<close>, its trailing
  \<open>hop_size\<close> samples are the chunk just appended, and its leading
  \<open>window_size - hop_size\<close> samples are the previous buffer without its oldest \<open>hop_size\<close>
  samples.
\<close>

theorem windower_frames:
  assumes "0 < h \<or> w = 0" "0 \<le> h" "h \<le> w"
    and "new_stream sr ch w h dev wav = Inr s0"
    and "\<forall>c\<in>set cs. int (length c) = h"
  shows "\<exists>fs evs s'. produce s0 cs = Inr (fs, evs, s') \<and> length fs = length cs \<and>
     (\<forall>i<length cs. length (fs ! i) = nat w \<and> slice_from (fs ! i) (- h) = cs ! i \<and>
         take (nat (w - h)) (fs ! i) = drop (nat h) ((replicate (nat w) 0 # fs) ! i))"
proof (cases "0 < h")
  case True
  have s0: "hop_size s0 = h" "buffer s0 = replicate (nat w) 0"
    using assms(3,4) True by (auto simp: new_stream_def split: if_splits)
  then have "length (buffer s0) = nat w" by simp
  from produce_frames[OF True assms(3) s0(1) this assms(5)] show ?thesis
    unfolding s0(2) by blast
next
  case False
  then have z: "h = 0" "w = 0" using assms(1,2,3) by auto
  have s0: "hop_size s0 = 0" "buffer s0 = []"
    using assms(4) z by (auto simp: new_stream_def split: if_splits)
  have e: "\<forall>c\<in>set cs. c = []" using assms(5) z by simp
  obtain fs evs s' where p: "produce s0 cs = Inr (fs, evs, s')" "length fs = length cs"
     "\<forall>i<length cs. fs ! i = []"
    using produce_frames_empty[OF s0 e] by blast
  have "\<forall>i<length cs. length (fs ! i) = nat w \<and> slice_from (fs ! i) (- h) = cs ! i \<and>
         take (nat (w - h)) (fs ! i) = drop (nat h) ((replicate (nat w) 0 # fs) ! i)"
  proof (intro allI impI)
    fix i assume i: "i < length cs"
    have a: "fs ! i = []" using p(3) i by simp
    have b: "cs ! i = []" using e i by simp
    have c: "([] # fs) ! i = []" using p(3) i by (cases i) simp_all
    show "length (fs ! i) = nat w \<and> slice_from (fs ! i) (- h) = cs ! i \<and>
         take (nat (w - h)) (fs ! i) = drop (nat h) ((replicate (nat w) 0 # fs) ! i)"
      using a b c z by (simp add: slice_from_def)
  qed
  then show ?thesis using p(1,2) by blast
qed

text \<open>Three samples of window, two of hop, two chunks: the second frame ends with the second chunk.\<close>

theorem windower_frames_witness:
  "\<exists>fs evs s'.
     produce \<lparr>sample_rate = 16000, channels = 1, window_size = 3, hop_size = 2,
              device = None, wav_file = None, buffer = [0, 0, 0], frame_queue = [],
              is_running = False, thread = None\<rparr> [[1, 5], [2, 6 :: int]] = Inr (fs, evs, s')
     \<and> length fs = 2 \<and> length (fs ! 1) = 3 \<and> slice_from (fs ! 1) (- 2) = [2, 6]
     \<and> take 1 (fs ! 1) = drop 2 (fs ! 0)"
proof -
  let ?s = "\<lparr>sample_rate = 16000, channels = 1, window_size = 3, hop_size = 2,
              device = None, wav_file = None, buffer = [0, 0, 0 :: int], frame_queue = [],
              is_running = False, thread = None\<rparr>"
  have n: "new_stream 16000 1 3 2 None None = Inr ?s"
    by (simp add: new_stream_def numeral_3_eq_3)
  have c: "\<forall>c\<in>set [[1, 5], [2, 6 :: int]]. int (length c) = 2" by simp
  obtain fs evs s' where p: "produce ?s [[1, 5], [2, 6]] = Inr (fs, evs, s')"
      "length fs = length [[1, 5], [2, 6 :: int]]"
      "\<forall>i<length [[1, 5], [2, 6 :: int]]. length (fs ! i) = nat 3 \<and>
          slice_from (fs ! i) (- 2) = [[1, 5], [2, 6]] ! i \<and>
          take (nat (3 - 2)) (fs ! i) = drop (nat 2) ((replicate (nat 3) 0 # fs) ! i)"
    using windower_frames[of 2 3 16000 1 None None ?s "[[1, 5], [2, 6]]", OF _ _ _ n c] by auto
  from p(3) have "length (fs ! 1) = nat 3 \<and> slice_from (fs ! 1) (- 2) = [[1, 5], [2, 6]] ! 1 \<and>
          take (nat (3 - 2)) (fs ! 1) = drop (nat 2) ((replicate (nat 3) 0 # fs) ! 1)"
    by (simp del: replicate.simps)
  then have "length (fs ! 1) = 3 \<and> slice_from (fs ! 1) (- 2) = [2, 6] \<and>
          take 1 (fs ! 1) = drop 2 (fs ! 0)"
    by simp
  with p(1,2) show ?thesis by auto
qed

text \<open>
  With a hop of zero \<open>buffer[-0:]\<close> is the whole buffer and \<open>new_data[:0]\<close> is empty, so the
  slice assignment raises on a buffer that is not empty: the bound \<open>hop_size \<le> window_size\<close>
  alone is not enough.
\<close>

theorem windower_zero_hop_counterexample:
  "new_stream 16000 1 1 0 None None =
     Inr \<lparr>sample_rate = 16000, channels = 1, window_size = 1, hop_size = 0,
          device = None, wav_file = None, buffer = [0 :: int], frame_queue = [],
          is_running = False, thread = None\<rparr>
   \<and> produce \<lparr>sample_rate = 16000, channels = 1, window_size = 1, hop_size = 0,
          device = None, wav_file = None, buffer = [0 :: int], frame_queue = [],
          is_running = False, thread = None\<rparr> [[]] = Inl ValueError"
  by (simp add: new_stream_def update_buffer_def np_roll_def np_assign_from_def
      slice_index_def slice_to_def Let_def)

section \<open>The frame queue\<close>

lemma update_buffer_queue:
  "update_buffer s c = (evs, Inl (e, s')) \<Longrightarrow> frame_queue s' = frame_queue s"
  by (auto simp: update_buffer_def Let_def put_nowait_def split: sum.splits if_splits)

lemma update_buffer_queue_ok:
  "update_buffer s c = (evs, Inr s') \<Longrightarrow>
     frame_queue s' = (if maxsize \<le> length (frame_queue s) then frame_queue s
                       else frame_queue s @ [buffer s'])"
  by (auto simp: update_buffer_def Let_def put_nowait_def split: sum.splits if_splits)

lemma get_frame_cases:
  "get_frame s = (case frame_queue s of [] \<Rightarrow> (Inr None, s)
                  | f # q \<Rightarrow> (Inr (Some f), s\<lparr>frame_queue := q\<rparr>))"
  by (simp add: get_frame_def queue_get_def split: list.splits)

lemma interleave_invariant:
  "interleave s ops = (enq, deq, s') \<Longrightarrow>
     \<exists>acc. subseq acc enq \<and> frame_queue s @ acc = deq @ frame_queue s'"
proof (induction ops arbitrary: s enq deq s')
  case Nil
  then show ?case by auto
next
  case (Cons op ops)
  show ?case
  proof (cases op)
    case (Enqueue c)
    obtain evs r where ub: "update_buffer s c = (evs, r)" by (cases "update_buffer s c")
    show ?thesis
    proof (cases r)
      case (Inl p)
      obtain e s1 where p: "p = (e, s1)" by (cases p)
      have q: "frame_queue s1 = frame_queue s" using ub Inl p update_buffer_queue by blast
      have "interleave s1 ops = (enq, deq, s')" using Cons.prems Enqueue ub Inl p by simp
      from Cons.IH[OF this] q show ?thesis by simp
    next
      case (Inr s1)
      obtain enq1 deq1 s2 where r: "interleave s1 ops = (enq1, deq1, s2)"
        by (cases "interleave s1 ops")
      have e: "enq = buffer s1 # enq1" "deq = deq1" "s' = s2"
        using Cons.prems Enqueue ub Inr r by simp_all
      obtain acc where a: "subseq acc enq1" "frame_queue s1 @ acc = deq1 @ frame_queue s2"
        using Cons.IH[OF r] by blast
      show ?thesis
      proof (cases "maxsize \<le> length (frame_queue s)")
        case True
        then have "frame_queue s1 = frame_queue s"
          using update_buffer_queue_ok[OF ub[unfolded Inr]] by simp
        then show ?thesis using a e by (intro exI[of _ acc]) auto
      next
        case False
        then have "frame_queue s1 = frame_queue s @ [buffer s1]"
          using update_buffer_queue_ok[OF ub[unfolded Inr]] by simp
        then show ?thesis using a e by (intro exI[of _ "buffer s1 # acc"]) auto
      qed
    qed
  next
    case Dequeue
    show ?thesis
    proof (cases "frame_queue s")
      case Nil
      then have "interleave s ops = (enq, deq, s')"
        using Cons.prems Dequeue by (simp add: get_frame_cases)
      from Cons.IH[OF this] show ?thesis .
    next
      case (Cons f q)
      obtain enq1 deq1 s2 where r: "interleave (s\<lparr>frame_queue := q\<rparr>) ops = (enq1, deq1, s2)"
        by (cases "interleave (s\<lparr>frame_queue := q\<rparr>) ops")
      have e: "enq = enq1" "deq = f # deq1" "s' = s2"
        using Cons.prems Dequeue Cons r by (simp_all add: get_frame_cases)
      obtain acc where a: "subseq acc enq1" "q @ acc = deq1 @ frame_queue s2"
        using Cons.IH[OF r] by auto
      then show ?thesis using e Cons by (intro exI[of _ acc]) auto
    qed
  qed
qed

lemma interleave_subseq:
  assumes "interleave s ops = (enq, deq, s')"
  shows "subseq deq (frame_queue s @ enq)"
proof -
  obtain acc where a: "subseq acc enq" "frame_queue s @ acc = deq @ frame_queue s'"
    using interleave_invariant[OF assms] by blast
  have "subseq deq (deq @ frame_queue s')" by (rule prefix_imp_subseq) (rule prefixI, rule refl)
  also have "deq @ frame_queue s' = frame_queue s @ acc" using a(2) by simp
  also have "subseq (frame_queue s @ acc) (frame_queue s @ enq)"
    using a(1) by (simp add: subseq_append')
  finally show ?thesis .
qed

lemma produce_full_queue:
  assumes "maxsize \<le> length (frame_queue s)" "0 < hop_size s"
    "hop_size s \<le> int (length (buffer s))" "\<forall>c\<in>set cs. int (length c) = hop_size s"
  shows "\<exists>fs s'. produce s cs =
       Inr (fs, replicate (length cs) (Log_warning ''Frame queue full, dropping frame''), s')
     \<and> length fs = length cs \<and> frame_queue s' = frame_queue s"
  using assms
proof (induction cs arbitrary: s)
  case Nil
  then show ?case by simp
next
  case (Cons c cs)
  let ?s1 = "s\<lparr>buffer := drop (nat (hop_size s)) (buffer s) @ c\<rparr>"
  have lc: "int (length c) = hop_size s" using Cons.prems by simp
  have ub: "update_buffer s c = ([Log_warning ''Frame queue full, dropping frame''], Inr ?s1)"
    using Cons.prems(1,2,3) lc by (simp add: update_buffer_ok)
  have "length (buffer ?s1) = length (buffer s)" using Cons.prems(2,3) lc by simp
  then obtain fs s' where ih: "produce ?s1 cs =
       Inr (fs, replicate (length cs) (Log_warning ''Frame queue full, dropping frame''), s')"
     "length fs = length cs" "frame_queue s' = frame_queue ?s1"
    using Cons.IH[of ?s1] Cons.prems by auto
  show ?case using ub ih by simp
qed

lemma drain_queue:
  "fst (snd (interleave s (replicate n Dequeue))) = take n (frame_queue s)"
proof (induction n arbitrary: s)
  case 0
  then show ?case by simp
next
  case (Suc n)
  show ?case
  proof (cases "frame_queue s")
    case Nil
    then show ?thesis using Suc[of s] by (simp add: get_frame_cases)
  next
    case (Cons f q)
    then show ?thesis using Suc[of "s\<lparr>frame_queue := q\<rparr>"]
      by (auto simp: get_frame_cases split: prod.splits)
  qed
qed

text \<open>
  C3. When the queue already holds its capacity of 10 frames and nothing is dequeued, every
  further append returns without raising (the producer is never blocked): the new frame is
  dropped, a warning "Frame queue full, dropping frame" is logged for each, the queue
  keeps exactly its 10 frames in their order, and what the consumer then dequeues are
  those frames only.
\<close>

theorem full_queue_drops_newest:
  assumes "length (frame_queue s) = maxsize" "0 < hop_size s"
    "hop_size s \<le> int (length (buffer s))" "\<forall>c\<in>set cs. int (length c) = hop_size s"
  shows "\<exists>fs s'. produce s cs =
       Inr (fs, replicate (length cs) (Log_warning ''Frame queue full, dropping frame''), s')
     \<and> length fs = length cs \<and> frame_queue s' = frame_queue s
     \<and> length (frame_queue s') = 10
     \<and> (\<forall>n. fst (snd (interleave s' (replicate n Dequeue))) = take n (frame_queue s))"
proof -
  have "maxsize \<le> length (frame_queue s)" using assms(1) by simp
  from produce_full_queue[OF this assms(2,3,4)] obtain fs s' where
    p: "produce s cs =
       Inr (fs, replicate (length cs) (Log_warning ''Frame queue full, dropping frame''), s')"
     "length fs = length cs" "frame_queue s' = frame_queue s" by blast
  have "\<forall>n. fst (snd (interleave s' (replicate n Dequeue))) = take n (frame_queue s)"
    using drain_queue[of s'] p(3) by simp
  moreover have "length (frame_queue s') = 10" using p(3) assms(1) by (simp add: maxsize_def)
  ultimately show ?thesis using p by blast
qed

theorem full_queue_drops_newest_witness:
  "\<exists>fs s'.
     produce \<lparr>sample_rate = 16000, channels = 1, window_size = 2, hop_size = 1,
              device = None, wav_file = None, buffer = [0, 0],
              frame_queue = replicate 10 [7, 7 :: int],
              is_running = True, thread = Some Mic_worker\<rparr> [[1], [2]]
       = Inr (fs, [Log_warning ''Frame queue full, dropping frame'',
                   Log_warning ''Frame queue full, dropping frame''], s')
     \<and> frame_queue s' = replicate 10 [7, 7]
     \<and> fst (snd (interleave s' (replicate 3 Dequeue))) = [[7, 7], [7, 7], [7, 7]]"
proof -
  let ?s = "\<lparr>sample_rate = 16000, channels = 1, window_size = 2, hop_size = 1,
              device = None, wav_file = None, buffer = [0, 0],
              frame_queue = replicate 10 [7, 7 :: int],
              is_running = True, thread = Some Mic_worker\<rparr>"
  have a: "length (frame_queue ?s) = maxsize" by (simp add: maxsize_def)
  have b: "0 < hop_size ?s" "hop_size ?s \<le> int (length (buffer ?s))" by simp_all
  have c: "\<forall>c\<in>set [[1], [2 :: int]]. int (length c) = hop_size ?s" by simp
  obtain fs s' where p: "produce ?s [[1], [2]] =
       Inr (fs, replicate (length [[1], [2 :: int]])
                  (Log_warning ''Frame queue full, dropping frame''), s')"
     "frame_queue s' = frame_queue ?s"
     "\<forall>n. fst (snd (interleave s' (replicate n Dequeue))) = take n (frame_queue ?s)"
    using full_queue_drops_newest[OF a b c] by blast
  have "fst (snd (interleave s' (replicate 3 Dequeue))) = take 3 (frame_queue ?s)"
    using p(3) by blast
  also have "take 3 (frame_queue ?s) = [[7, 7], [7, 7], [7, 7]]"
    by (simp add: numeral_eq_Suc)
  finally have d: "fst (snd (interleave s' (replicate 3 Dequeue))) = [[7, 7], [7, 7], [7, 7]]" .
  have e: "replicate (length [[1], [2 :: int]]) (Log_warning ''Frame queue full, dropping frame'')
      = [Log_warning ''Frame queue full, dropping frame'',
         Log_warning ''Frame queue full, dropping frame'']"
    by (simp add: numeral_eq_Suc)
  show ?thesis using p(1,2) d unfolding e by (intro exI[of _ fs] exI[of _ s']) simp
qed

text \<open>
  C4. For every interleaving of appends and \<open>get_frame\<close> calls on a stream whose queue
  starts empty, the frames \<open>get_frame\<close> returned are a subsequence of the frames handed to
  \<open>put_nowait\<close>, in the same order: they are the frames at a set of positions of that
  sequence, so none is delivered twice and none out of order. On an empty queue
  \<open>get_frame\<close> returns \<open>None\<close> and raises nothing.
\<close>

theorem frames_delivered_in_order:
  assumes "frame_queue s = []" and "interleave s ops = (enq, deq, s')"
  shows "subseq deq enq \<and> (\<exists>N. deq = nths enq N)
     \<and> (frame_queue s' = [] \<longrightarrow> get_frame s' = (Inr None, s'))"
proof -
  have "subseq deq enq" using interleave_subseq[OF assms(2)] assms(1) by simp
  moreover from this have "\<exists>N. deq = nths enq N" by (simp add: subseq_conv_nths)
  moreover have "frame_queue s' = [] \<longrightarrow> get_frame s' = (Inr None, s')"
    by (simp add: get_frame_cases)
  ultimately show ?thesis by blast
qed

theorem frames_delivered_in_order_witness:
  "subseq [[0, 1], [1, 2 :: int]] [[0, 1], [1, 2], [2, 3]]
   \<and> (\<exists>N. [[0, 1], [1, 2 :: int]] = nths [[0, 1], [1, 2], [2, 3]] N)"
proof -
  let ?s = "\<lparr>sample_rate = 16000, channels = 1, window_size = 2, hop_size = 1,
              device = None, wav_file = None, buffer = [0, 0 :: int], frame_queue = [],
              is_running = True, thread = Some Mic_worker\<rparr>"
  let ?s' = "\<lparr>sample_rate = 16000, channels = 1, window_size = 2, hop_size = 1,
              device = None, wav_file = None, buffer = [2, 3 :: int], frame_queue = [[2, 3]],
              is_running = True, thread = Some Mic_worker\<rparr>"
  have r: "interleave ?s [Dequeue, Enqueue [1], Enqueue [2], Dequeue, Enqueue [3], Dequeue]
      = ([[0, 1], [1, 2], [2, 3]], [[0, 1], [1, 2]], ?s')"
    by (simp add: update_buffer_def get_frame_def queue_get_def np_roll_def np_assign_from_def
        slice_index_def slice_to_def put_nowait_def maxsize_def Let_def)
  have q: "frame_queue ?s = []" by simp
  from frames_delivered_in_order[OF q r] show ?thesis by blast
qed

section \<open>Start and stop\<close>

text \<open>
  C8. \<open>start\<close> on a running stream logs a warning and changes nothing (state and thread
  stay as they are). \<open>stop\<close> clears \<open>is_running\<close> and changes nothing else, joins the
  worker thread (if there is one) with a timeout of 2 s, returns the same whether or not the
  worker ended in time, and a second \<open>stop\<close> leaves the state as the first did.
\<close>

theorem start_stop_lifecycle:
  "(is_running s \<longrightarrow> start s = ([Log_warning ''Stream already running''], s))
   \<and> snd (stop joined s) = s\<lparr>is_running := False\<rparr>
   \<and> fst (stop joined s) =
       (case thread s of None \<Rightarrow> [] | Some t \<Rightarrow> [Thread_join t 2000])
         @ [Log_info ''Audio stream stopped'']
   \<and> stop True s = stop False s
   \<and> snd (stop j2 (snd (stop j1 s))) = snd (stop j1 s)"
  by (simp add: start_def stop_def Let_def)

theorem start_stop_lifecycle_witness:
  "start \<lparr>sample_rate = 16000, channels = 1, window_size = 2, hop_size = 1,
          device = None, wav_file = None, buffer = [0, 0 :: int], frame_queue = [],
          is_running = True, thread = Some Mic_worker\<rparr>
     = ([Log_warning ''Stream already running''],
        \<lparr>sample_rate = 16000, channels = 1, window_size = 2, hop_size = 1,
          device = None, wav_file = None, buffer = [0, 0], frame_queue = [],
          is_running = True, thread = Some Mic_worker\<rparr>)
   \<and> fst (stop False \<lparr>sample_rate = 16000, channels = 1, window_size = 2, hop_size = 1,
          device = None, wav_file = None, buffer = [0, 0 :: int], frame_queue = [],
          is_running = True, thread = Some Mic_worker\<rparr>)
     = [Thread_join Mic_worker 2000, Log_info ''Audio stream stopped'']"
  using start_stop_lifecycle[of "\<lparr>sample_rate = 16000, channels = 1, window_size = 2,
          hop_size = 1, device = None, wav_file = None, buffer = [0, 0 :: int],
          frame_queue = [], is_running = True, thread = Some Mic_worker\<rparr>" False]
  by simp

section \<open>The replay worker\<close>

lemma slice_range_tail:
  assumes "0 \<le> idx" "idx \<le> int (length a)" "int (length a) \<le> j"
  shows "slice_range a idx j = drop (nat idx) a"
proof -
  have "nat idx \<le> length a" "length a \<le> nat j" using assms by linarith+
  then show ?thesis using assms by (simp add: slice_range_def slice_index_nonneg min_def)
qed

text \<open>The wait raises, so no iteration of the replay loop is followed by another.\<close>

lemma wav_loop_unfold:
  "wav_loop s audio_data idx =
     (if is_running s \<and> idx < int (length audio_data) then
        (case update_buffer s (next_chunk s audio_data idx) of
           (evs, Inl (e, s')) \<Rightarrow> (evs, Raised e s')
         | (evs, Inr s') \<Rightarrow> (evs, Raised AttributeError s'))
      else ([], Returned s))"
  by (subst wav_loop.simps) (simp add: hop_duration_def split: prod.splits sum.splits)

text \<open>
  Lines 136 to 140 at an index where fewer than \<open>hop_size\<close> samples are left: the chunk
  handed to \<open>_update_buffer\<close> is those samples followed by zeros, exactly \<open>hop_size\<close> long,
  and the append of it raises nothing.
\<close>

lemma next_chunk_padded:
  assumes "0 \<le> idx" "idx < int (length audio_data)" "0 < k"
    and "int (length audio_data) - idx = hop_size s - k"
    and "hop_size s \<le> int (length (buffer s))"
  shows "next_chunk s audio_data idx = drop (nat idx) audio_data @ replicate (nat k) 0
     \<and> int (length (next_chunk s audio_data idx)) = hop_size s
     \<and> (\<exists>evs s'. update_buffer s (next_chunk s audio_data idx) = (evs, Inr s')
          \<and> buffer s' = drop (nat (hop_size s)) (buffer s)
                          @ drop (nat idx) audio_data @ replicate (nat k) 0)"
proof -
  let ?h = "hop_size s"
  have h: "0 < ?h" using assms by linarith
  have sr: "slice_range audio_data idx (idx + ?h) = drop (nat idx) audio_data"
    using assms by (intro slice_range_tail) auto
  have len: "int (length (drop (nat idx) audio_data)) = ?h - k" using assms by auto
  have nc: "next_chunk s audio_data idx = drop (nat idx) audio_data @ replicate (nat k) 0"
    using assms(3) len by (simp add: next_chunk_def sr Let_def np_pad_right_def del: length_drop)
  have ln: "int (length (next_chunk s audio_data idx)) = ?h"
    unfolding nc using len assms(3) by (simp del: length_drop)
  from update_buffer_ok[OF h assms(5) ln] show ?thesis using nc ln by simp
qed

text \<open>
  C5. A running replay worker on three samples with a hop of one sample: the first chunk
  is appended, then reading \<open>self.hop_duration\<close> for the wait raises \<open>AttributeError\<close>;
  the worker logs "WAV playback error", clears \<open>is_running\<close> and ends with one frame queued
  instead of three, with no wait and without the "WAV playback finished" line.
\<close>

theorem wav_worker_stops_after_first_chunk:
  "wav_worker (Inr (Mono [1, 2, 3 :: int], 1))
     \<lparr>sample_rate = 1, channels = 1, window_size = 2, hop_size = 1,
      device = None, wav_file = Some ''a.wav'', buffer = [0, 0], frame_queue = [],
      is_running = True, thread = Some Wav_worker\<rparr> = 
   ([Log_info ''WAV file loaded'', Log_error ''WAV playback error''],
     \<lparr>sample_rate = 1, channels = 1, window_size = 2, hop_size = 1,
      device = None, wav_file = Some ''a.wav'', buffer = [0, 1], frame_queue = [[0, 1]],
      is_running = False, thread = Some Wav_worker\<rparr>)"
  by (simp add: wav_worker_def update_buffer_def next_chunk_def hop_duration_def
      np_roll_def np_assign_from_def slice_index_def slice_to_def slice_range_def
      put_nowait_def maxsize_def Let_def)

text \<open>
  C6. A running replay worker on four samples with a hop of three: the final chunk is the
  one sample \<open>[4]\<close>, which should reach the buffer as \<open>[4, 0, 0]\<close>. The worker ends in its
  error handler right after the first chunk (the wait reads \<open>self.hop_duration\<close>), so the
  final chunk is never padded and never appended: one frame is queued, not two.
\<close>

theorem wav_worker_skips_final_chunk:
  "wav_worker (Inr (Mono [1, 2, 3, 4 :: int], 16000))
     \<lparr>sample_rate = 16000, channels = 1, window_size = 4, hop_size = 3,
      device = None, wav_file = Some ''a.wav'', buffer = [0, 0, 0, 0], frame_queue = [],
      is_running = True, thread = Some Wav_worker\<rparr> =
   ([Log_info ''WAV file loaded'', Log_error ''WAV playback error''],
     \<lparr>sample_rate = 16000, channels = 1, window_size = 4, hop_size = 3,
      device = None, wav_file = Some ''a.wav'', buffer = [0, 1, 2, 3],
      frame_queue = [[0, 1, 2, 3]], is_running = False, thread = Some Wav_worker\<rparr>)"
  by code_simp

section \<open>Top-k\<close>


lemma comprehension_total:
  "(\<And>x. x \<in> set xs \<Longrightarrow> f x = Inr (g x)) \<Longrightarrow> comprehension f xs = Inr (map g xs)"
  by (induction xs) auto

lemma is_argsort_length: "is_argsort xs idxs \<Longrightarrow> length idxs = length xs"
  using distinct_card[of idxs] by (simp add: is_argsort_def)

text \<open>
  C7 (as amended). For a score vector of length \<open>n\<close> on which \<open>argsort\<close> returns an
  ascending permutation of the indices, \<open>1 \<le> k \<le> n\<close> and at least \<open>n\<close> class names,
  \<open>get_top_k\<close> returns exactly \<open>k\<close> pairs, each a class name with the score at the same
  index: the indices are the last \<open>k\<close> of the ascending order, reversed. They are distinct,
  their scores do not increase along the result, and no score left out exceeds a score
  returned. Equal scores come in the reverse of the order \<open>argsort\<close> gave them.
\<close>

theorem get_top_k_descending:
  assumes "is_argsort predictions (argsort predictions)"
    and "1 \<le> k" "k \<le> int (length predictions)"
    and "length predictions \<le> length names"
  shows "\<exists>idxs. idxs = rev (drop (length predictions - nat k) (argsort predictions))
     \<and> get_top_k argsort names predictions k
         = Inr (map (\<lambda>i. (names ! i, predictions ! i)) idxs)
     \<and> length idxs = nat k \<and> distinct idxs \<and> set idxs \<subseteq> {0..<length predictions}
     \<and> sorted (rev (map (\<lambda>i. predictions ! i) idxs))
     \<and> (\<forall>j<length predictions. j \<notin> set idxs \<longrightarrow>
           (\<forall>i\<in>set idxs. predictions ! j \<le> predictions ! i))"
proof -
  let ?is = "argsort predictions"
  let ?n = "length predictions"
  let ?m = "?n - nat k"
  let ?idxs = "rev (drop ?m ?is)"
  let ?f = "\<lambda>i. predictions ! i"
  have len: "length ?is = ?n" using assms(1) by (rule is_argsort_length)
  have d: "distinct ?is" and st: "set ?is = {0..<?n}" and so: "sorted (map ?f ?is)"
    using assms(1) by (simp_all add: is_argsort_def)
  have sl: "slice_from ?is (- k) = drop ?m ?is"
    using assms(2,3) len slice_index_neg[of k ?is] by (simp add: slice_from_def)
  have sub: "set ?idxs \<subseteq> {0..<?n}"
    using st set_drop_subset[of ?m ?is] by auto
  have each: "\<And>x. x \<in> set ?idxs \<Longrightarrow>
      (case list_get names x of Inl e \<Rightarrow> Inl e
       | Inr name \<Rightarrow> (case list_get predictions x of Inl e \<Rightarrow> Inl e
                      | Inr p \<Rightarrow> Inr (name, p))) = Inr (names ! x, predictions ! x)"
  proof -
    fix x assume "x \<in> set ?idxs"
    then have "x < ?n" using sub by auto
    then show "(case list_get names x of Inl e \<Rightarrow> Inl e
       | Inr name \<Rightarrow> (case list_get predictions x of Inl e \<Rightarrow> Inl e
                      | Inr p \<Rightarrow> Inr (name, p))) = Inr (names ! x, predictions ! x)"
      using assms(4) by (simp add: list_get_def)
  qed
  have res: "get_top_k argsort names predictions k
         = Inr (map (\<lambda>i. (names ! i, predictions ! i)) ?idxs)"
    unfolding get_top_k_def Let_def sl by (rule comprehension_total) (rule each)
  have l: "length ?idxs = nat k" using len assms(2,3) by simp
  have di: "distinct ?idxs" using d by simp
  have "sorted (drop ?m (map ?f ?is))" using so by (rule sorted_wrt_drop)
  then have desc: "sorted (rev (map ?f ?idxs))" by (simp add: rev_map drop_map)
  have split: "map ?f ?is = map ?f (take ?m ?is) @ map ?f (drop ?m ?is)"
    by (metis append_take_drop_id map_append)
  have le: "\<forall>x\<in>set (take ?m ?is). \<forall>y\<in>set (drop ?m ?is). ?f x \<le> ?f y"
    using so unfolding split by (auto simp: sorted_append)
  have rest: "\<forall>j<?n. j \<notin> set ?idxs \<longrightarrow> (\<forall>i\<in>set ?idxs. ?f j \<le> ?f i)"
  proof (intro allI impI ballI)
    fix j i assume j: "j < ?n" "j \<notin> set ?idxs" and i: "i \<in> set ?idxs"
    have "j \<in> set ?is" using j(1) st by simp
    then have "j \<in> set (take ?m ?is @ drop ?m ?is)" by simp
    then have "j \<in> set (take ?m ?is)" using j(2) by (simp only: set_append set_rev) blast
    moreover have "i \<in> set (drop ?m ?is)" using i by simp
    ultimately show "?f j \<le> ?f i" using le by blast
  qed
  show ?thesis using res l di sub desc rest by blast
qed

lemma argsort_small_ok: "is_argsort xs (argsort_small xs)"
  by (simp add: is_argsort_def argsort_small_def)

theorem get_top_k_descending_witness:
  "get_top_k argsort_small [''a'', ''b'', ''c''] [5, 9, 7 :: int] 2 = Inr [(''b'', 9), (''c'', 7)]"
proof -
  have a: "is_argsort [5, 9, 7 :: int] (argsort_small [5, 9, 7 :: int])" by (rule argsort_small_ok)
  have e: "argsort_small [5, 9, 7 :: int] = [0, 2, 1]"
    by (simp add: argsort_small_def upt_rec numeral_eq_Suc)
  from get_top_k_descending[of "[5, 9, 7 :: int]" argsort_small 2 "[''a'', ''b'', ''c'']", OF a]
  have "get_top_k argsort_small [''a'', ''b'', ''c''] [5, 9, 7 :: int] 2
      = Inr (map (\<lambda>i. ([''a'', ''b'', ''c''] ! i, [5, 9, 7] ! i))
              (rev (drop (length [5, 9, 7 :: int] - nat 2) (argsort_small [5, 9, 7 :: int]))))"
    by simp
  then show ?thesis unfolding e by simp
qed

text \<open>
  Two equal scores, which \<open>np.argsort\<close> lists as \<open>[0, 1]\<close>: the pair of the larger index
  comes first, not the first-seen one.
\<close>

theorem get_top_k_ties_counterexample:
  "get_top_k argsort_small [''first'', ''second''] [5, 5 :: int] 2
     = Inr [(''second'', 5), (''first'', 5)]"
  by (simp add: get_top_k_def argsort_small_def slice_from_def slice_index_def list_get_def
      upt_rec numeral_eq_Suc Let_def)

section \<open>The input tensor of \<open>predict\<close>\<close>


lemma matrix_ok_rows:
  "matrix_ok m \<Longrightarrow> j < shape0 m \<Longrightarrow> length (rows m ! j) = shape1 m"
  by (simp add: matrix_ok_def list_all_length)

lemma transposed_ok: "length (rows m) = shape0 m \<Longrightarrow> matrix_ok (transposed m)"
  by (auto simp: matrix_ok_def transposed_def list_all_iff)

lemma transposed_entry:
  "length (rows m) = shape0 m \<Longrightarrow> i < shape1 m \<Longrightarrow> j < shape0 m \<Longrightarrow>
     rows (transposed m) ! i ! j = rows m ! j ! i"
  by (simp add: transposed_def)

lemma crop_or_pad_shape:
  "shape0 (crop_or_pad m) = shape0 m" "shape1 (crop_or_pad m) = 96"
  "length (rows (crop_or_pad m)) = length (rows m)"
  by (auto simp: crop_or_pad_def pad_columns_def take_columns_def)

lemma crop_or_pad_entry:
  assumes "matrix_ok m" "j < shape0 m" "i < 96"
  shows "rows (crop_or_pad m) ! j ! i = (if i < shape1 m then rows m ! j ! i else 0)"
proof -
  have l: "length (rows m) = shape0 m" using assms(1) by (simp add: matrix_ok_def)
  have r: "length (rows m ! j) = shape1 m" using assms(1,2) by (rule matrix_ok_rows)
  show ?thesis using assms(2,3) l r
    by (auto simp: crop_or_pad_def pad_columns_def take_columns_def nth_append)
qed

text \<open>
  C10. For every feature matrix (rows of equal length), the tensor \<open>predict\<close> hands to the
  interpreter is one matrix of exactly 96 time frames by the matrix's number of Mel bands:
  entry \<open>(i, j)\<close> is the feature at band \<open>j\<close>, time \<open>i\<close> when the matrix has that column, and
  zero otherwise (so a short matrix is padded with zeros on the right, a long one cut to
  its first 96 columns). A band count other than 64 adds one warning to the log and
  nothing else: \<open>predict\<close> returns what the interpreter returns on that tensor.
\<close>

theorem predict_normalises_time:
  assumes "matrix_ok features"
  shows "\<exists>t. input_data features = [t] \<and> shape0 t = 96 \<and> shape1 t = shape0 features
     \<and> matrix_ok t
     \<and> (\<forall>i<96. \<forall>j<shape0 features.
           rows t ! i ! j = (if i < shape1 features then rows features ! j ! i else 0))
     \<and> fst (predict interp features)
         = (if shape0 features = 64 then [] else [Log_warning ''Expected 64 Mel bands''])
     \<and> snd (predict interp features)
         = (case interp [t] of
              Inl e \<Rightarrow> Inl e
            | Inr (output, latency) \<Rightarrow>
                (case output of [] \<Rightarrow> Inl IndexError
                 | predictions # rest \<Rightarrow> Inr (predictions, latency)))"
proof -
  let ?f = "crop_or_pad features"
  let ?t = "transposed ?f"
  have l: "length (rows features) = shape0 features" using assms by (simp add: matrix_ok_def)
  have i: "input_data features = [?t]"
    by (simp add: input_data_def)
  have s: "shape0 ?t = 96" "shape1 ?t = shape0 features"
    by (simp_all add: transposed_def crop_or_pad_shape)
  have ok: "matrix_ok ?t" using l by (simp add: transposed_ok crop_or_pad_shape)
  have en: "\<forall>i<96. \<forall>j<shape0 features.
           rows ?t ! i ! j = (if i < shape1 features then rows features ! j ! i else 0)"
  proof (intro allI impI)
    fix i j assume a: "i < (96::nat)" "j < shape0 features"
    have "rows ?t ! i ! j = rows ?f ! j ! i"
      using a l by (intro transposed_entry) (simp_all add: crop_or_pad_shape)
    then show "rows ?t ! i ! j = (if i < shape1 features then rows features ! j ! i else 0)"
      using crop_or_pad_entry[OF assms a(2,1)] by simp
  qed
  have w: "fst (predict interp features)
         = (if shape0 features = 64 then [] else [Log_warning ''Expected 64 Mel bands''])"
    by (simp add: predict_def Let_def)
  have r: "snd (predict interp features)
         = (case interp [?t] of
              Inl e \<Rightarrow> Inl e
            | Inr (output, latency) \<Rightarrow>
                (case output of [] \<Rightarrow> Inl IndexError
                 | predictions # rest \<Rightarrow> Inr (predictions, latency)))"
    by (simp add: predict_def Let_def i)
  show ?thesis using i s ok en w r by blast
qed

theorem predict_normalises_time_witness:
  "\<exists>t. input_data \<lparr>shape0 = 2, shape1 = 1, rows = [[3], [4 :: int]]\<rparr> = [t]
     \<and> shape0 t = 96 \<and> shape1 t = 2 \<and> rows t ! 0 ! 1 = 4 \<and> rows t ! 95 ! 0 = 0
     \<and> fst (predict (\<lambda>x. Inr ([[1 :: int]], 0)) \<lparr>shape0 = 2, shape1 = 1, rows = [[3], [4 :: int]]\<rparr>)
          = [Log_warning ''Expected 64 Mel bands'']"
proof -
  let ?m = "\<lparr>shape0 = 2, shape1 = 1, rows = [[3], [4 :: int]]\<rparr>"
  have ok: "matrix_ok ?m" by (simp add: matrix_ok_def)
  obtain t where t: "input_data ?m = [t]" "shape0 t = 96" "shape1 t = shape0 ?m"
     "\<forall>i<96. \<forall>j<shape0 ?m. rows t ! i ! j = (if i < shape1 ?m then rows ?m ! j ! i else 0)"
     "fst (predict (\<lambda>x. Inr ([[1 :: int]], 0 :: int)) ?m)
         = (if shape0 ?m = 64 then [] else [Log_warning ''Expected 64 Mel bands''])"
    using predict_normalises_time[OF ok, of "\<lambda>x. Inr ([[1 :: int]], 0 :: int)"] by blast
  have "rows t ! 0 ! 1 = 4" "rows t ! 95 ! 0 = 0" using t(4) by simp_all
  then show ?thesis using t(1,2,3,5) by (intro exI[of _ t]) simp
qed

section \<open>The processing loop\<close>

lemma emits_append: "emits (xs @ ys) = emits xs @ emits ys"
  by (induction xs rule: emits.induct) auto

lemma emits_map_Ev: "emits (map Ev w) = []"
  by (induction w) auto

lemma predict_events:
  "fst (predict f x) = [] \<or> fst (predict f x) = [Log_warning ''Expected 64 Mel bands'']"
  by (simp add: predict_def Let_def)

lemma predict_no_error_log:
  assumes "predict f x = (w, r)"
  shows "Ev (Log_error m) \<notin> set (map Ev w)"
  using predict_events[of f x] assms by auto

lemma process_frame_facts:
  assumes "process_frame argsort eng t f sv = (oc, evs, sv')"
  shows "server_is_running sv' = server_is_running sv \<and> audio_stream sv' = audio_stream sv
     \<and> oc \<noteq> No_frame \<and> events_fit (oc, evs)
     \<and> frame_count sv' = frame_count sv + length (results [oc])
     \<and> map frame_id (results [oc]) = [frame_count sv ..< frame_count sv']"
proof (cases "extract_result t f")
  case (Inl e)
  then show ?thesis using assms by (auto simp: process_frame_def handler_def)
next
  case (Inr features)
  obtain w pr where p: "predict (interpreter t) features = (w, pr)"
    by (cases "predict (interpreter t) features")
  have nw: "Ev (Log_error ''Processing error'') \<notin> set (map Ev w)"
    using p by (rule predict_no_error_log)
  have base: "process_frame argsort eng t f sv =
      (case pr of
         Inl e \<Rightarrow> handler e (map Ev w) sv
       | Inr (predictions, latency) \<Rightarrow>
           (case get_top_k argsort (class_names eng) predictions 5 of
              Inl e \<Rightarrow> handler e (map Ev w) sv
            | Inr tk \<Rightarrow>
                (case cpu_result t of
                   Inl e \<Rightarrow> handler e (map Ev w) sv
                 | Inr cpu \<Rightarrow>
                     (case tk of
                        [] \<Rightarrow> handler IndexError (map Ev w) sv
                      | (cls, prob) # rest \<Rightarrow>
                          (let res = \<lparr>timestamp = now t, frame_id = frame_count sv,
                                      top_class = cls, confidence = prob, top_k = tk,
                                      latency_ms = latency, cpu_percent = cpu,
                                      threads = num_threads eng\<rparr>
                           in case emit_result t res of
                                Some e \<Rightarrow> handler e (map Ev w) sv
                              | None \<Rightarrow>
                                  (let n = frame_count sv + 1 in
                                   (Emitted res,
                                    map Ev w @ [Emit res]
                                      @ (if n mod 50 = 0
                                         then [Ev (Log_info ''Processed frames'')]
                                         else []),
                                    sv\<lparr>frame_count := n\<rparr>)))))))"
    by (simp add: process_frame_def Inr p)
  have hf: "\<And>e. handler e (map Ev w) sv = (oc, evs, sv') \<Longrightarrow> ?thesis"
    using nw by (auto simp: handler_def emits_append emits_map_Ev)
  show ?thesis
    using assms[unfolded base] hf nw
    by (auto simp: Let_def emits_append emits_map_Ev
        split: sum.splits prod.splits list.splits option.splits if_splits)
qed

lemma iteration_facts:
  assumes "iteration argsort eng t sv = (oc, evs, sv')"
  shows "server_is_running sv' = server_is_running sv \<and> events_fit (oc, evs)
     \<and> frame_count sv' = frame_count sv + length (results [oc])
     \<and> map frame_id (results [oc]) = [frame_count sv ..< frame_count sv']"
proof (cases "audio_stream sv")
  case None
  then show ?thesis using assms by (auto simp: iteration_def handler_def)
next
  case (Some st)
  show ?thesis
  proof (cases "frame_queue (appended st (arrivals t))")
    case Nil
    then show ?thesis using assms Some by (auto simp: iteration_def get_frame_cases)
  next
    case (Cons f q)
    then have "process_frame argsort eng t f
        (sv\<lparr>audio_stream := Some (appended st (arrivals t)\<lparr>frame_queue := q\<rparr>)\<rparr>) = (oc, evs, sv')"
      using assms Some by (simp add: iteration_def get_frame_cases)
    from process_frame_facts[OF this] show ?thesis by simp
  qed
qed

text \<open>With no append by the producer, an iteration that is not a \<open>continue\<close> takes one
  frame off the queue, and a \<open>continue\<close> leaves the queue as it is.\<close>

lemma iteration_queue:
  assumes "iteration argsort eng t sv = (oc, evs, sv')" "audio_stream sv = Some st"
    "arrivals t = []"
  shows "\<exists>st'. audio_stream sv' = Some st'
     \<and> length (frame_queue st') + (if oc = No_frame then 0 else 1) = length (frame_queue st)"
proof (cases "frame_queue st")
  case Nil
  then show ?thesis using assms by (auto simp: iteration_def get_frame_cases)
next
  case (Cons f q)
  then have "process_frame argsort eng t f
      (sv\<lparr>audio_stream := Some (st\<lparr>frame_queue := q\<rparr>)\<rparr>) = (oc, evs, sv')"
    using assms by (simp add: iteration_def get_frame_cases)
  from process_frame_facts[OF this] show ?thesis using Cons by simp
qed

lemma results_append: "results (xs @ ys) = results xs @ results ys"
  by (induction xs rule: results.induct) auto

lemma results_Cons: "results (oc # ocs) = results [oc] @ results ocs"
  using results_append[of "[oc]" ocs] by simp

lemma emits_fit: "events_fit (oc, evs) \<Longrightarrow> emits evs = results [oc]"
  by (cases oc) auto

lemma while_running_steady:
  assumes "server_is_running sv" "\<forall>t\<in>set ts. \<not> stop_requested t"
  shows "\<exists>its sv'. while_running argsort eng ts sv = (its, Running sv')
     \<and> length its = length ts \<and> server_is_running sv'
     \<and> list_all events_fit its
     \<and> emits (concat (map snd its)) = results (map fst its)
     \<and> map frame_id (results (map fst its)) = [frame_count sv ..< frame_count sv']
     \<and> frame_count sv \<le> frame_count sv'"
  using assms
proof (induction ts arbitrary: sv)
  case Nil
  then show ?case by simp
next
  case (Cons t ts)
  obtain oc evs sv1 where it: "iteration argsort eng t sv = (oc, evs, sv1)"
    by (cases "iteration argsort eng t sv") auto
  note f = iteration_facts[OF it]
  have r1: "server_is_running sv1" using f Cons.prems(1) by simp
  have ns: "\<forall>t\<in>set ts. \<not> stop_requested t" "\<not> stop_requested t" using Cons.prems(2) by simp_all
  obtain its sv' where ih: "while_running argsort eng ts sv1 = (its, Running sv')"
     "length its = length ts" "server_is_running sv'" "list_all events_fit its"
     "emits (concat (map snd its)) = results (map fst its)"
     "map frame_id (results (map fst its)) = [frame_count sv1 ..< frame_count sv']"
     "frame_count sv1 \<le> frame_count sv'"
    using Cons.IH[OF r1 ns(1)] by blast
  have w: "while_running argsort eng (t # ts) sv = ((oc, evs) # its, Running sv')"
    using Cons.prems(1) it ns(2) ih(1) by simp
  have le: "frame_count sv \<le> frame_count sv1" using f by simp
  have ids: "map frame_id (results (map fst ((oc, evs) # its)))
      = [frame_count sv ..< frame_count sv']"
  proof -
    have "map frame_id (results (map fst ((oc, evs) # its)))
        = map frame_id (results [oc]) @ map frame_id (results (map fst its))"
      using results_Cons[of oc "map fst its"] by simp
    also have "\<dots> = [frame_count sv ..< frame_count sv1] @ [frame_count sv1 ..< frame_count sv']"
      using f ih(6) by simp
    also have "\<dots> = [frame_count sv ..< frame_count sv']"
      using le ih(7) by (metis le_Suc_ex upt_add_eq_append)
    finally show ?thesis .
  qed
  have em: "emits (concat (map snd ((oc, evs) # its))) = results (map fst ((oc, evs) # its))"
    using f ih(5) emits_fit[of oc evs] results_Cons[of oc "map fst its"]
    by (simp add: emits_append)
  show ?case using w ih(2,3,4,7) f le ids em by simp
qed

text \<open>The outcome of an iteration is the one the spec words.\<close>

lemma process_frame_outcome:
  "fst (process_frame argsort eng t f sv) =
     (case spec_steps argsort eng t f (frame_count sv) of
        Inl e \<Rightarrow> Failed e | Inr res \<Rightarrow> Emitted res)"
proof (cases "extract_result t f")
  case (Inl e)
  then show ?thesis by (simp add: process_frame_def spec_steps_def then_step_def handler_def)
next
  case (Inr features)
  obtain w pr where p: "predict (interpreter t) features = (w, pr)"
    by (cases "predict (interpreter t) features")
  show ?thesis
    by (auto simp: process_frame_def spec_steps_def then_step_def handler_def Inr p Let_def
        split: sum.splits prod.splits list.splits option.splits)
qed

lemma iteration_outcome:
  "fst (iteration argsort eng t sv) = spec_outcome argsort eng t sv"
proof (cases "audio_stream sv")
  case None
  then show ?thesis by (simp add: iteration_def spec_outcome_def handler_def)
next
  case (Some st)
  show ?thesis
  proof (cases "frame_queue (appended st (arrivals t))")
    case Nil
    then show ?thesis using Some by (simp add: iteration_def spec_outcome_def get_frame_cases)
  next
    case (Cons f q)
    then show ?thesis using Some
      by (simp add: iteration_def spec_outcome_def get_frame_cases process_frame_outcome)
  qed
qed

lemma while_running_prefix:
  assumes "server_is_running sv" "\<forall>t\<in>set ts. \<not> stop_requested t"
    and "while_running argsort eng ts sv = (its, r)" "i < length ts"
  shows "\<exists>sv_i. while_running argsort eng (take i ts) sv = (take i its, Running sv_i)
     \<and> fst (its ! i) = spec_outcome argsort eng (ts ! i) sv_i"
  using assms
proof (induction ts arbitrary: sv its i r)
  case Nil
  then show ?case by simp
next
  case (Cons t ts)
  obtain oc evs sv1 where it: "iteration argsort eng t sv = (oc, evs, sv1)"
    by (cases "iteration argsort eng t sv") auto
  have r1: "server_is_running sv1" using iteration_facts[OF it] Cons.prems(1) by simp
  have ns: "\<forall>t\<in>set ts. \<not> stop_requested t" "\<not> stop_requested t" using Cons.prems(2) by simp_all
  obtain its1 r1' where w1: "while_running argsort eng ts sv1 = (its1, r1')"
    by (cases "while_running argsort eng ts sv1")
  have its: "its = (oc, evs) # its1"
    using Cons.prems(1,3) it ns(2) w1 by simp
  show ?case
  proof (cases i)
    case 0
    have "oc = spec_outcome argsort eng t sv" using iteration_outcome[of argsort eng t sv] it by simp
    then show ?thesis using 0 its Cons.prems(1) by simp
  next
    case (Suc j)
    then have j: "j < length ts" using Cons.prems(4) by simp
    obtain sv_j where ih: "while_running argsort eng (take j ts) sv1 = (take j its1, Running sv_j)"
       "fst (its1 ! j) = spec_outcome argsort eng (ts ! j) sv_j"
      using Cons.IH[OF r1 ns(1) w1 j] by blast
    have "while_running argsort eng (take i (t # ts)) sv = (take i its, Running sv_j)"
      using Suc its Cons.prems(1) it ns(2) ih(1) by simp
    then show ?thesis using Suc its ih(2) by auto
  qed
qed

text \<open>
  C2. While the running flag is set and no other thread clears it, the loop runs one
  iteration per tick and is still running after the last one; no iteration changes the
  flag. Each iteration ends as the spec words it, from the state the iterations before it
  left: with no frame it goes round again; when a step raises (the frame read, feature
  extraction, inference, top-k, CPU sampling or the emit) it fails with that exception,
  which is logged and followed by a sleep of 100 ms, and nothing is emitted; when a frame
  came and nothing raised, its result is emitted. The results emitted are exactly those of
  the iterations that did not fail, with consecutive frame numbers.
\<close>

theorem loop_survives_failures:
  assumes "server_is_running sv" "\<forall>t\<in>set ts. \<not> stop_requested t"
  shows "\<exists>its evs sv'. processing_loop argsort eng ts sv = (its, evs, Running sv')
     \<and> length its = length ts \<and> server_is_running sv'
     \<and> list_all events_fit its
     \<and> evs = Ev (Log_info ''Processing loop started'') # concat (map snd its)
     \<and> emits evs = results (map fst its)
     \<and> map frame_id (results (map fst its)) = [frame_count sv ..< frame_count sv']
     \<and> (\<forall>i<length ts. \<exists>evs_i sv_i.
           processing_loop argsort eng (take i ts) sv = (take i its, evs_i, Running sv_i)
         \<and> fst (its ! i) = spec_outcome argsort eng (ts ! i) sv_i)"
proof -
  obtain its sv' where w: "while_running argsort eng ts sv = (its, Running sv')"
     "length its = length ts" "server_is_running sv'" "list_all events_fit its"
     "emits (concat (map snd its)) = results (map fst its)"
     "map frame_id (results (map fst its)) = [frame_count sv ..< frame_count sv']"
    using while_running_steady[OF assms] by blast
  have p: "processing_loop argsort eng ts sv
      = (its, Ev (Log_info ''Processing loop started'') # concat (map snd its), Running sv')"
    using w(1) by (simp add: processing_loop_def)
  have pre: "\<forall>i<length ts. \<exists>evs_i sv_i.
           processing_loop argsort eng (take i ts) sv = (take i its, evs_i, Running sv_i)
         \<and> fst (its ! i) = spec_outcome argsort eng (ts ! i) sv_i"
  proof (intro allI impI)
    fix i assume i: "i < length ts"
    obtain sv_i where q: "while_running argsort eng (take i ts) sv = (take i its, Running sv_i)"
       "fst (its ! i) = spec_outcome argsort eng (ts ! i) sv_i"
      using while_running_prefix[OF assms w(1) i] by blast
    have "processing_loop argsort eng (take i ts) sv
        = (take i its, Ev (Log_info ''Processing loop started'') # concat (map snd (take i its)),
           Running sv_i)"
      using q(1) by (simp add: processing_loop_def)
    then show "\<exists>evs_i sv_i.
           processing_loop argsort eng (take i ts) sv = (take i its, evs_i, Running sv_i)
         \<and> fst (its ! i) = spec_outcome argsort eng (ts ! i) sv_i"
      using q(2) by blast
  qed
  show ?thesis using p w(2-6) pre by simp
qed

theorem loop_survives_failures_witness:
  "\<exists>its evs sv'.
     processing_loop argsort_small mock_engine
       [mock_tick False, mock_tick False, mock_tick True, mock_tick False] mock_server
       = (its, evs, Running sv')
     \<and> server_is_running sv'
     \<and> map fst its =
        [Emitted \<lparr>timestamp = 0, frame_id = 0, top_class = ''b'', confidence = 2,
                   top_k = [(''b'', 2), (''a'', 1)], latency_ms = 7, cpu_percent = 3, threads = 4\<rparr>,
         Emitted \<lparr>timestamp = 0, frame_id = 1, top_class = ''b'', confidence = 2,
                   top_k = [(''b'', 2), (''a'', 1)], latency_ms = 7, cpu_percent = 3, threads = 4\<rparr>,
         Failed (External ''mock''),
         Emitted \<lparr>timestamp = 0, frame_id = 2, top_class = ''b'', confidence = 2,
                   top_k = [(''b'', 2), (''a'', 1)], latency_ms = 7, cpu_percent = 3, threads = 4\<rparr>]
     \<and> map frame_id (emits evs) = [0, 1, 2]"
proof -
  let ?ts = "[mock_tick False, mock_tick False, mock_tick True, mock_tick False]"
  have a: "server_is_running mock_server" by (simp add: mock_server_def)
  have b: "\<forall>t\<in>set ?ts. \<not> stop_requested t" by (simp add: mock_tick_def)
  obtain its evs sv' where p:
    "processing_loop argsort_small mock_engine ?ts mock_server = (its, evs, Running sv')"
    "server_is_running sv'" "emits evs = results (map fst its)"
    using loop_survives_failures[OF a b, of argsort_small mock_engine] by blast
  have "map fst (fst (processing_loop argsort_small mock_engine ?ts mock_server)) =
        [Emitted \<lparr>timestamp = 0, frame_id = 0, top_class = ''b'', confidence = 2,
                   top_k = [(''b'', 2), (''a'', 1)], latency_ms = 7, cpu_percent = 3, threads = 4\<rparr>,
         Emitted \<lparr>timestamp = 0, frame_id = 1, top_class = ''b'', confidence = 2,
                   top_k = [(''b'', 2), (''a'', 1)], latency_ms = 7, cpu_percent = 3, threads = 4\<rparr>,
         Failed (External ''mock''),
         Emitted \<lparr>timestamp = 0, frame_id = 2, top_class = ''b'', confidence = 2,
                   top_k = [(''b'', 2), (''a'', 1)], latency_ms = 7, cpu_percent = 3, threads = 4\<rparr>]"
    by code_simp
  then have m: "map fst its =
        [Emitted \<lparr>timestamp = 0, frame_id = 0, top_class = ''b'', confidence = 2,
                   top_k = [(''b'', 2), (''a'', 1)], latency_ms = 7, cpu_percent = 3, threads = 4\<rparr>,
         Emitted \<lparr>timestamp = 0, frame_id = 1, top_class = ''b'', confidence = 2,
                   top_k = [(''b'', 2), (''a'', 1)], latency_ms = 7, cpu_percent = 3, threads = 4\<rparr>,
         Failed (External ''mock''),
         Emitted \<lparr>timestamp = 0, frame_id = 2, top_class = ''b'', confidence = 2,
                   top_k = [(''b'', 2), (''a'', 1)], latency_ms = 7, cpu_percent = 3, threads = 4\<rparr>]"
    using p(1) by simp
  have "map frame_id (emits evs) = [0, 1, 2]" unfolding p(3) m by simp
  then show ?thesis using p(1,2) m
    by (intro exI[of _ its] exI[of _ evs] exI[of _ sv']) simp
qed

section \<open>The capture worker\<close>

lemma update_buffer_running:
  "update_buffer s c = (evs, Inl (e, s')) \<Longrightarrow> is_running s' = is_running s"
  "update_buffer s c = (evs, Inr s') \<Longrightarrow> is_running s' = is_running s"
  by (auto simp: update_buffer_def Let_def split: sum.splits if_splits)

lemma callback_running:
  assumes "callback s status indata = (out, r)"
  shows "is_running (case r of Raised e s' \<Rightarrow> s' | Returned s' \<Rightarrow> s' | Running s' \<Rightarrow> s')
     = is_running s"
  using assms update_buffer_running[of s]
  by (auto simp: callback_def Let_def split: sum.splits prod.splits)

text \<open>The loop on a stream nobody appends to: it goes on, and takes no more frames than
  were queued.\<close>

lemma while_running_starved:
  assumes "server_is_running sv" "audio_stream sv = Some st"
    and "\<forall>t\<in>set ts. \<not> stop_requested t \<and> arrivals t = []"
  shows "\<exists>its sv'. while_running argsort eng ts sv = (its, Running sv')
     \<and> length (filter (\<lambda>it. fst it \<noteq> No_frame) its) \<le> length (frame_queue st)"
  using assms
proof (induction ts arbitrary: sv st)
  case Nil
  then show ?case by simp
next
  case (Cons t ts)
  obtain oc evs sv1 where it: "iteration argsort eng t sv = (oc, evs, sv1)"
    by (cases "iteration argsort eng t sv") auto
  have t: "\<not> stop_requested t" "arrivals t = []" using Cons.prems(3) by simp_all
  have r1: "server_is_running sv1" using iteration_facts[OF it] Cons.prems(1) by simp
  obtain st1 where q: "audio_stream sv1 = Some st1"
    "length (frame_queue st1) + (if oc = No_frame then 0 else 1) = length (frame_queue st)"
    using iteration_queue[OF it Cons.prems(2) t(2)] by blast
  have rest: "\<forall>t\<in>set ts. \<not> stop_requested t \<and> arrivals t = []" using Cons.prems(3) by simp
  obtain its sv' where ih: "while_running argsort eng ts sv1 = (its, Running sv')"
     "length (filter (\<lambda>it. fst it \<noteq> No_frame) its) \<le> length (frame_queue st1)"
    using Cons.IH[OF r1 q(1) rest] by blast
  have "while_running argsort eng (t # ts) sv = ((oc, evs) # its, Running sv')"
    using Cons.prems(1) it t(1) ih(1) by simp
  then show ?case using ih(2) q(2) by (auto split: if_splits)
qed

text \<open>Sleeps and callbacks, whatever their status flags, leave a running worker running.\<close>

lemma mic_loop_quiet:
  assumes "is_running s"
    and "\<forall>ev\<in>set devs. ev = Slept \<or> (\<exists>status indata. ev = Callback status indata)"
  shows "\<exists>out s'. mic_loop s devs = (out, Running s') \<and> is_running s'"
  using assms
proof (induction devs arbitrary: s)
  case Nil
  then show ?case by simp
next
  case (Cons ev devs)
  have rest: "\<forall>ev\<in>set devs. ev = Slept \<or> (\<exists>status indata. ev = Callback status indata)"
    using Cons.prems(2) by simp
  consider "ev = Slept" | status indata where "ev = Callback status indata"
    using Cons.prems(2) by auto
  then show ?case
  proof cases
    case 1
    obtain out s' where "mic_loop s devs = (out, Running s')" "is_running s'"
      using Cons.IH[OF Cons.prems(1) rest] by blast
    then show ?thesis using 1 Cons.prems(1) by simp
  next
    case 2
    obtain o1 r where c: "callback s status indata = (o1, r)"
      by (cases "callback s status indata")
    let ?s1 = "case r of Raised e s' \<Rightarrow> s' | Returned s' \<Rightarrow> s' | Running s' \<Rightarrow> s'"
    have run: "is_running ?s1" using callback_running[OF c] Cons.prems(1) by simp
    obtain out s' where ih: "mic_loop ?s1 devs = (out, Running s')" "is_running s'"
      using Cons.IH[OF run rest] by blast
    show ?thesis using 2 Cons.prems(1) c ih by (cases r) simp_all
  qed
qed

lemma delivered_ended:
  "stop_requested (delivered (Returned s) t) = stop_requested t"
  "arrivals (delivered (Returned s) t) = []"
  by (simp_all add: delivered_def)

text \<open>
  C9 (as amended). When opening the capture device raises, the worker logs "Microphone
  error", clears \<open>is_running\<close> and returns, whatever the device would deliver afterwards.
  The server's own running flag is untouched: the processing loop goes through all its
  iterations and is still running, and since nothing is appended once the worker has
  returned, it gets at most the frames that were already queued. What the device reports
  to the callback (status flags) does not stop the worker: after any number of sleeps and
  callbacks a running worker is still running.
\<close>

theorem open_failure_stops_worker_only:
  assumes "server_is_running sv" and "\<forall>t\<in>set ts. \<not> stop_requested t"
    and "mic_worker (Some e) s devs = (out, r)"
  shows "out = [Log_error ''Microphone error''] \<and> r = Returned (s\<lparr>is_running := False\<rparr>)
     \<and> server_is_running (sv\<lparr>audio_stream := Some (s\<lparr>is_running := False\<rparr>)\<rparr>)
     \<and> (\<exists>its evs sv'.
           processing_loop argsort eng (map (delivered r) ts)
             (sv\<lparr>audio_stream := Some (s\<lparr>is_running := False\<rparr>)\<rparr>) = (its, evs, Running sv')
         \<and> length its = length ts \<and> server_is_running sv'
         \<and> length (filter (\<lambda>it. fst it \<noteq> No_frame) its) \<le> length (frame_queue s))
     \<and> (is_running s \<and>
          (\<forall>ev\<in>set devs. ev = Slept \<or> (\<exists>status indata. ev = Callback status indata))
          \<longrightarrow> (\<exists>out' s'. mic_worker None s devs = (out', Running s') \<and> is_running s'))"
proof -
  let ?s' = "s\<lparr>is_running := False\<rparr>"
  let ?sv = "sv\<lparr>audio_stream := Some ?s'\<rparr>"
  let ?ts = "map (delivered r) ts"
  have o: "out = [Log_error ''Microphone error'']" "r = Returned ?s'"
    using assms(3) by (simp_all add: mic_worker_def)
  have run: "server_is_running ?sv" using assms(1) by simp
  have ns: "\<forall>t\<in>set ?ts. \<not> stop_requested t"
    using assms(2) by (simp add: o(2) delivered_ended)
  have na: "\<forall>t\<in>set ?ts. \<not> stop_requested t \<and> arrivals t = []"
    using assms(2) by (simp add: o(2) delivered_ended)
  obtain its sv' where l0: "while_running argsort eng ?ts ?sv = (its, Running sv')"
     "length its = length ?ts" "server_is_running sv'"
    using while_running_steady[OF run ns] by blast
  define evs where "evs = Ev (Log_info ''Processing loop started'') # concat (map snd its)"
  have l: "processing_loop argsort eng ?ts ?sv = (its, evs, Running sv')"
    using l0(1) by (simp add: processing_loop_def evs_def)
  have a: "audio_stream ?sv = Some ?s'" by simp
  obtain its2 sv2 where st: "while_running argsort eng ?ts ?sv = (its2, Running sv2)"
     "length (filter (\<lambda>it. fst it \<noteq> No_frame) its2) \<le> length (frame_queue ?s')"
    using while_running_starved[OF run a na] by blast
  have "its2 = its" using l0(1) st(1) by simp
  then have c: "length (filter (\<lambda>it. fst it \<noteq> No_frame) its) \<le> length (frame_queue s)"
    using st(2) by simp
  have lp: "\<exists>its evs sv'.
           processing_loop argsort eng ?ts ?sv = (its, evs, Running sv')
         \<and> length its = length ts \<and> server_is_running sv'
         \<and> length (filter (\<lambda>it. fst it \<noteq> No_frame) its) \<le> length (frame_queue s)"
    using l l0(2,3) c by auto
  have q: "is_running s \<and>
          (\<forall>ev\<in>set devs. ev = Slept \<or> (\<exists>status indata. ev = Callback status indata))
          \<longrightarrow> (\<exists>out' s'. mic_worker None s devs = (out', Running s') \<and> is_running s')"
  proof
    assume h: "is_running s \<and>
          (\<forall>ev\<in>set devs. ev = Slept \<or> (\<exists>status indata. ev = Callback status indata))"
    then obtain o2 s2 where "mic_loop s devs = (o2, Running s2)" "is_running s2"
      using mic_loop_quiet[of s devs] by blast
    then show "\<exists>out' s'. mic_worker None s devs = (out', Running s') \<and> is_running s'"
      by (simp add: mic_worker_def)
  qed
  show ?thesis using o run lp q by simp
qed

theorem open_failure_stops_worker_only_witness:
  "mic_worker (Some (External ''device''))
       \<lparr>sample_rate = 16000, channels = 1, window_size = 1, hop_size = 1,
        device = None, wav_file = None, buffer = [0 :: int], frame_queue = [],
        is_running = True, thread = Some Mic_worker\<rparr>
       [Callback False \<lparr>shape0 = 1, shape1 = 1, rows = [[5]]\<rparr>]
     = ([Log_error ''Microphone error''],
        Returned \<lparr>sample_rate = 16000, channels = 1, window_size = 1, hop_size = 1,
        device = None, wav_file = None, buffer = [0 :: int], frame_queue = [],
        is_running = False, thread = Some Mic_worker\<rparr>)
   \<and> (\<exists>its evs sv'.
         processing_loop argsort_small mock_engine
           (map (delivered (Returned \<lparr>sample_rate = 16000, channels = 1, window_size = 1,
               hop_size = 1, device = None, wav_file = None, buffer = [0 :: int],
               frame_queue = [], is_running = False, thread = Some Mic_worker\<rparr>))
              [mock_tick False, mock_tick False])
           (mock_server\<lparr>audio_stream := Some \<lparr>sample_rate = 16000, channels = 1,
               window_size = 1, hop_size = 1, device = None, wav_file = None,
               buffer = [0 :: int], frame_queue = [], is_running = False,
               thread = Some Mic_worker\<rparr>\<rparr>) = (its, evs, Running sv')
       \<and> server_is_running sv' \<and> map fst its = [No_frame, No_frame])
   \<and> (\<exists>out' s'.
         mic_worker None
           \<lparr>sample_rate = 16000, channels = 1, window_size = 1, hop_size = 1,
            device = None, wav_file = None, buffer = [0 :: int], frame_queue = [],
            is_running = True, thread = Some Mic_worker\<rparr>
           [Callback False \<lparr>shape0 = 1, shape1 = 1, rows = [[5]]\<rparr>] = (out', Running s')
       \<and> is_running s')"
proof -
  let ?s = "\<lparr>sample_rate = 16000, channels = 1, window_size = 1, hop_size = 1,
        device = None, wav_file = None, buffer = [0 :: int], frame_queue = [],
        is_running = True, thread = Some Mic_worker\<rparr>"
  let ?s' = "\<lparr>sample_rate = 16000, channels = 1, window_size = 1, hop_size = 1,
        device = None, wav_file = None, buffer = [0 :: int], frame_queue = [],
        is_running = False, thread = Some Mic_worker\<rparr>"
  let ?devs = "[Callback False \<lparr>shape0 = 1, shape1 = 1, rows = [[5 :: int]]\<rparr>]"
  let ?ts = "[mock_tick False, mock_tick False]"
  have a: "server_is_running mock_server" by (simp add: mock_server_def)
  have b: "\<forall>t\<in>set ?ts. \<not> stop_requested t" by (simp add: mock_tick_def)
  have c: "mic_worker (Some (External ''device'')) ?s ?devs
      = ([Log_error ''Microphone error''], Returned ?s')"
    by (simp add: mic_worker_def)
  note th = open_failure_stops_worker_only[OF a b c, of argsort_small mock_engine]
  have ex: "\<exists>its evs sv'.
       processing_loop argsort_small mock_engine (map (delivered (Returned ?s')) ?ts)
         (mock_server\<lparr>audio_stream := Some (?s\<lparr>is_running := False\<rparr>)\<rparr>)
         = (its, evs, Running sv')
     \<and> length its = length ?ts \<and> server_is_running sv'
     \<and> length (filter (\<lambda>it. fst it \<noteq> No_frame) its) \<le> length (frame_queue ?s)"
    by (rule th[THEN conjunct2, THEN conjunct2, THEN conjunct2, THEN conjunct1])
  have q: "is_running ?s \<and>
      (\<forall>ev\<in>set ?devs. ev = Slept \<or> (\<exists>status indata. ev = Callback status indata))"
    by auto
  have st: "\<exists>out' s'. mic_worker None ?s ?devs = (out', Running s') \<and> is_running s'"
    by (rule th[THEN conjunct2, THEN conjunct2, THEN conjunct2, THEN conjunct2, THEN mp, OF q])
  have e: "?s\<lparr>is_running := False\<rparr> = ?s'" by simp
  obtain its evs sv' where l:
    "processing_loop argsort_small mock_engine (map (delivered (Returned ?s')) ?ts)
       (mock_server\<lparr>audio_stream := Some ?s'\<rparr>) = (its, evs, Running sv')"
    "length its = length ?ts" "server_is_running sv'"
    "length (filter (\<lambda>it. fst it \<noteq> No_frame) its) \<le> length (frame_queue ?s)"
    using ex unfolding e by (elim exE conjE)
  have "filter (\<lambda>it. fst it \<noteq> No_frame) its = []" using l(4) by simp
  then have "\<forall>it\<in>set its. fst it = No_frame" by (simp add: filter_empty_conv)
  then have "map fst its = replicate (length its) No_frame"
    by (intro replicate_eqI) auto
  then have "map fst its = [No_frame, No_frame]" using l(2) by (simp add: numeral_2_eq_2)
  then have lp: "\<exists>its evs sv'.
         processing_loop argsort_small mock_engine (map (delivered (Returned ?s')) ?ts)
           (mock_server\<lparr>audio_stream := Some ?s'\<rparr>) = (its, evs, Running sv')
       \<and> server_is_running sv' \<and> map fst its = [No_frame, No_frame]"
    using l(1,3) by (intro exI[of _ its] exI[of _ evs] exI[of _ sv']) simp
  show ?thesis using c lp st by (intro conjI)
qed

text \<open>
  A callback whose status flags are set, on an opened device: the status is logged as a
  warning, the chunk is appended and the worker stays in its loop with \<open>is_running\<close> set.
\<close>

theorem status_flag_counterexample:
  "mic_worker None
       \<lparr>sample_rate = 16000, channels = 1, window_size = 1, hop_size = 1,
        device = None, wav_file = None, buffer = [0 :: int], frame_queue = [],
        is_running = True, thread = Some Mic_worker\<rparr>
       [Callback True \<lparr>shape0 = 1, shape1 = 1, rows = [[5]]\<rparr>]
     = ([Log_info ''Microphone opened'', Log_warning ''Audio callback status''],
        Running \<lparr>sample_rate = 16000, channels = 1, window_size = 1, hop_size = 1,
        device = None, wav_file = None, buffer = [5], frame_queue = [[5]],
        is_running = True, thread = Some Mic_worker\<rparr>)"
  by (simp add: mic_worker_def callback_def first_column_def update_buffer_def np_roll_def
      np_assign_from_def slice_index_def slice_to_def put_nowait_def maxsize_def Let_def)

end
